theory Spec2Isabelle
  imports Complex_Main
begin

section \<open>JavaScript string primitives used by the plugin\<close>

text \<open>
  A JavaScript string is modelled as a \<^typ>\<open>string\<close>: a list of 8-bit code units.
  \<open>toLowerCase\<close> maps \<open>A\<close>..\<open>Z\<close> to \<open>a\<close>..\<open>z\<close> and leaves every other unit unchanged; the
  lower-case form of a unit outside the ASCII range is again outside it, and the character
  classes and literals used below treat all such units alike. The character classes are the
  ones the regular expressions of \<open>src/code.ts\<close> use.
\<close>

definition toLowerChar :: "char \<Rightarrow> char" where
  "toLowerChar c =
     (case map_of (zip ''ABCDEFGHIJKLMNOPQRSTUVWXYZ'' ''abcdefghijklmnopqrstuvwxyz'') c of
        Some d \<Rightarrow> d
      | None \<Rightarrow> c)"

definition toLowerCase :: "string \<Rightarrow> string" where
  "toLowerCase s = map toLowerChar s"

text \<open>The class \<open>[a-z0-9]\<close>.\<close>

definition isLowerAlnum :: "char \<Rightarrow> bool" where
  "isLowerAlnum c = (c \<in> set ''abcdefghijklmnopqrstuvwxyz0123456789'')"

text \<open>The class \<open>[^a-z0-9]\<close>.\<close>

definition notLowerAlnum :: "char \<Rightarrow> bool" where
  "notLowerAlnum c = (\<not> isLowerAlnum c)"

text \<open>The class \<open>\d\<close>.\<close>

definition isDigit :: "char \<Rightarrow> bool" where
  "isDigit c = (c \<in> set ''0123456789'')"

text \<open>The underscore, for the patterns \<open>_+\<close>, \<open>^_+\<close> and \<open>_+$\<close>.\<close>

definition isUnderscore :: "char \<Rightarrow> bool" where
  "isUnderscore c = (c = CHR ''_'')"

text \<open>The class \<open>[^/.]\<close>.\<close>

definition notSlashDot :: "char \<Rightarrow> bool" where
  "notSlashDot c = (c \<noteq> CHR ''/'' \<and> c \<noteq> CHR ''.'')"

text \<open>
  \<open>name.replace(/\.[^/.]+$/, '')\<close>: the leftmost position where a dot is followed, up to the
  end of the string, by one or more characters that are neither a slash nor a dot; the match
  runs to the end, so the replacement cuts the string there.
\<close>

fun stripExtension :: "string \<Rightarrow> string" where
  "stripExtension [] = []"
| "stripExtension (c # cs) =
     (if c = CHR ''.'' \<and> cs \<noteq> [] \<and> list_all notSlashDot cs then []
      else c # stripExtension cs)"

text \<open>
  \<open>s.replace(/[C]+/g, '_')\<close> for a character class \<open>C\<close>: every maximal run of characters of
  the class becomes one underscore.
\<close>

function replaceRuns :: "(char \<Rightarrow> bool) \<Rightarrow> string \<Rightarrow> string" where
  "replaceRuns p [] = []"
| "replaceRuns p (c # cs) =
     (if p c then CHR ''_'' # replaceRuns p (dropWhile p cs) else c # replaceRuns p cs)"
  by pat_completeness auto
termination
  by (relation "measure (\<lambda>(p, s). length s)") (auto simp: length_dropWhile_le less_Suc_eq_le)

text \<open>
  \<open>s.replace(/^_+|_+$/g, '')\<close>: the run of underscores at the start and the run of underscores
  at the end are removed. The first alternative can only match at position 0 and takes the
  whole leading run; the second matches at the leftmost later position from which only
  underscores remain.
\<close>

fun dropTrailingUnderscores :: "string \<Rightarrow> string" where
  "dropTrailingUnderscores [] = []"
| "dropTrailingUnderscores (c # cs) =
     (if list_all isUnderscore (c # cs) then [] else c # dropTrailingUnderscores cs)"

definition trimUnderscores :: "string \<Rightarrow> string" where
  "trimUnderscores s = dropTrailingUnderscores (dropWhile isUnderscore s)"

text \<open>
  \<open>normalizeToken\<close>: lower case, the replacement of \<open>stripExtension\<close> (the same regular
  expression), runs outside \<open>[a-z0-9]\<close> to one underscore, runs of underscores to one
  underscore, and the underscores at both ends removed.
\<close>

definition normalizeToken :: "string \<Rightarrow> string" where
  "normalizeToken raw =
     trimUnderscores
       (replaceRuns isUnderscore
         (replaceRuns notLowerAlnum
           (stripExtension (toLowerCase raw))))"



section \<open>The keyword catalog\<close>

definition ROOM_KEYWORDS :: "string list" where
  "ROOM_KEYWORDS =
     [''Owners_Bath'', ''Owners_WIC'', ''Owners'', ''Kitchen'', ''Kitchenette'', ''Dining'',
      ''Great'', ''Living'', ''Family'', ''Bed2'', ''Bed3'', ''Bed4'', ''Bed5'', ''Bedroom'',
      ''Bath2'', ''Bath3'', ''Bath4'', ''Bath'', ''Powder'', ''Laundry'', ''Garage'', ''Entry'',
      ''Foyer'', ''Office'', ''Study'', ''WIC'', ''Suite'', ''Den'', ''Loft'', ''Bonus'', ''Media'',
      ''Game'', ''Gym'', ''Flex'', ''CoveredPatio'', ''Deck'', ''Patio'', ''Nook'']"

text \<open>The interface \<open>RoomKeywordInfo\<close>.\<close>

record RoomKeywordInfo =
  raw :: string
  norm :: string

text \<open>
  \<open>Array.prototype.sort\<close> with a comparator is a stable sort. For a consistent comparator
  the result of any stable sort is the same list, computed here by insertion: an element goes
  before the first element, among those that followed it, that it does not compare greater
  than.
\<close>

fun insertBy :: "('a \<Rightarrow> 'a \<Rightarrow> 'b::linordered_idom) \<Rightarrow> 'a \<Rightarrow> 'a list \<Rightarrow> 'a list" where
  "insertBy cmp a [] = [a]"
| "insertBy cmp a (b # bs) = (if cmp a b \<le> 0 then a # b # bs else b # insertBy cmp a bs)"

definition sortBy :: "('a \<Rightarrow> 'a \<Rightarrow> 'b::linordered_idom) \<Rightarrow> 'a list \<Rightarrow> 'a list" where
  "sortBy cmp xs = foldr (insertBy cmp) xs []"

text \<open>
  \<open>ROOM_KEYWORDS.map((raw) => ({ raw, norm: normalizeToken(raw) }))
     .sort((a, b) => b.norm.length - a.norm.length)\<close>
\<close>

definition ROOM_KEYWORD_INFO :: "RoomKeywordInfo list" where
  "ROOM_KEYWORD_INFO =
     sortBy (\<lambda>a b. int (length (norm b)) - int (length (norm a)))
       (map (\<lambda>r. \<lparr>raw = r, norm = normalizeToken r\<rparr>) ROOM_KEYWORDS)"

section \<open>The filename resolver\<close>

text \<open>
  The pattern \<open>new RegExp(`(^|_)${info.norm}($|_)`, 'i')\<close>. The catalog's normalized forms
  consist of \<open>a\<close>..\<open>z\<close>, \<open>0\<close>..\<open>9\<close> and underscores, so the interpolated text is a literal. With
  the flag \<open>i\<close> two characters match when their upper-case forms agree.
\<close>

definition toUpperChar :: "char \<Rightarrow> char" where
  "toUpperChar c =
     (case map_of (zip ''abcdefghijklmnopqrstuvwxyz'' ''ABCDEFGHIJKLMNOPQRSTUVWXYZ'') c of
        Some d \<Rightarrow> d
      | None \<Rightarrow> c)"

definition eqIgnoreCase :: "char \<Rightarrow> char \<Rightarrow> bool" where
  "eqIgnoreCase a b = (toUpperChar a = toUpperChar b)"

text \<open>A literal at the start of the input, ignoring case; the result is the input left over.\<close>

fun matchLiteral :: "string \<Rightarrow> string \<Rightarrow> string option" where
  "matchLiteral [] s = Some s"
| "matchLiteral (p # ps) [] = None"
| "matchLiteral (p # ps) (c # cs) = (if eqIgnoreCase p c then matchLiteral ps cs else None)"

text \<open>
  \<open>norm($|_)\<close> at the start of the input: the number of characters matched, the closing
  underscore included when the input goes on.
\<close>

definition matchKeywordEnd :: "string \<Rightarrow> string \<Rightarrow> nat option" where
  "matchKeywordEnd kw s =
     (case matchLiteral kw s of
        None \<Rightarrow> None
      | Some r \<Rightarrow>
          (case r of
             [] \<Rightarrow> Some (length kw)
           | c # _ \<Rightarrow> if c = CHR ''_'' then Some (length kw + 1) else None))"

text \<open>
  \<open>(^|_)norm($|_)\<close> tried at one position; \<open>atStart\<close> tells whether the position is 0. The
  alternative \<open>^\<close> is tried first, the underscore second.
\<close>

definition matchKeywordAt :: "bool \<Rightarrow> string \<Rightarrow> string \<Rightarrow> nat option" where
  "matchKeywordAt atStart kw s =
     (case (if atStart then matchKeywordEnd kw s else None) of
        Some n \<Rightarrow> Some n
      | None \<Rightarrow>
          (case s of
             [] \<Rightarrow> None
           | c # cs \<Rightarrow> if c = CHR ''_'' then map_option Suc (matchKeywordEnd kw cs) else None))"

text \<open>
  The search of \<open>test\<close> and \<open>match\<close>: the leftmost position where the pattern matches, with the
  length of the match (\<open>keywordMatch.index\<close> and \<open>keywordMatch[0].length\<close>).
\<close>

fun keywordSearch :: "bool \<Rightarrow> nat \<Rightarrow> string \<Rightarrow> string \<Rightarrow> (nat \<times> nat) option" where
  "keywordSearch atStart i kw [] =
     (case matchKeywordAt atStart kw [] of Some n \<Rightarrow> Some (i, n) | None \<Rightarrow> None)"
| "keywordSearch atStart i kw (c # cs) =
     (case matchKeywordAt atStart kw (c # cs) of
        Some n \<Rightarrow> Some (i, n)
      | None \<Rightarrow> keywordSearch False (Suc i) kw cs)"

definition keywordMatch :: "string \<Rightarrow> string \<Rightarrow> (nat \<times> nat) option" where
  "keywordMatch kw normalized = keywordSearch True 0 kw normalized"

definition keywordTest :: "string \<Rightarrow> string \<Rightarrow> bool" where
  "keywordTest kw normalized = (keywordMatch kw normalized \<noteq> None)"

text \<open>The loop \<open>for (const info of ROOM_KEYWORD_INFO)\<close> with its \<open>break\<close> at the first match.\<close>

fun findKeyword :: "RoomKeywordInfo list \<Rightarrow> string \<Rightarrow> RoomKeywordInfo option" where
  "findKeyword [] normalized = None"
| "findKeyword (info # rest) normalized =
     (if keywordTest (norm info) normalized then Some info else findKeyword rest normalized)"

text \<open>
  The two index patterns. Both start with \<open>^_?(\d+)\<close>: an underscore is taken when there is
  one, then the longest run of digits, which must not be empty. Giving back the underscore or a
  digit never lets the rest of either pattern match (the next character would be an underscore
  or a digit where a digit, \<open>o\<close>, an underscore or the end is required), so the greedy choice is
  the only one to consider.
\<close>

definition optUnderscore :: "string \<Rightarrow> string" where
  "optUnderscore s = (case s of [] \<Rightarrow> [] | c # cs \<Rightarrow> if c = CHR ''_'' then cs else s)"

text \<open>The lookahead \<open>(?=_?of\d+)\<close>.\<close>

definition ofLookahead :: "string \<Rightarrow> bool" where
  "ofLookahead s =
     (case optUnderscore s of
        c1 # c2 # d # _ \<Rightarrow> c1 = CHR ''o'' \<and> c2 = CHR ''f'' \<and> isDigit d
      | _ \<Rightarrow> False)"

text \<open>Group 1 of \<open>afterKeyword.match(/^_?(\d+)(?=_?of\d+)/)\<close>.\<close>

definition ofMatch :: "string \<Rightarrow> string option" where
  "ofMatch afterKeyword =
     (let t = optUnderscore afterKeyword; ds = takeWhile isDigit t in
      if ds \<noteq> [] \<and> ofLookahead (dropWhile isDigit t) then Some ds else None)"

text \<open>Group 1 of \<open>afterKeyword.match(/^_?(\d+)(?:_|$)/)\<close>.\<close>

definition underscoreMatch :: "string \<Rightarrow> string option" where
  "underscoreMatch afterKeyword =
     (let t = optUnderscore afterKeyword; ds = takeWhile isDigit t in
      if ds = [] then None
      else (case dropWhile isDigit t of
              [] \<Rightarrow> Some ds
            | c # _ \<Rightarrow> if c = CHR ''_'' then Some ds else None))"

text \<open>
  \<open>normalized.substring(keywordMatch.index + keywordMatch[0].length)\<close>, or nothing when the
  pattern does not match.
\<close>

definition afterKeywordOf :: "string \<Rightarrow> string \<Rightarrow> string option" where
  "afterKeywordOf kw normalized =
     (case keywordMatch kw normalized of
        None \<Rightarrow> None
      | Some (i, n) \<Rightarrow> Some (drop (i + n) normalized))"

text \<open>The variable \<open>index\<close> before its default is applied.\<close>

definition extractIndex :: "string option \<Rightarrow> string option" where
  "extractIndex after =
     (case after of
        None \<Rightarrow> None
      | Some afterKeyword \<Rightarrow>
          (case ofMatch afterKeyword of
             Some i \<Rightarrow> Some i
           | None \<Rightarrow> underscoreMatch afterKeyword))"

definition parseFilenameToTargetLayer :: "string \<Rightarrow> string option" where
  "parseFilenameToTargetLayer name =
     (let base = stripExtension name;
          normalized = normalizeToken base
      in case findKeyword ROOM_KEYWORD_INFO normalized of
           None \<Rightarrow> None
         | Some matchedKeyword \<Rightarrow>
             (let index = extractIndex (afterKeywordOf (norm matchedKeyword) normalized)
              in Some (raw matchedKeyword @ ''_'' @ (case index of None \<Rightarrow> ''1'' | Some i \<Rightarrow> i))))"

section \<open>The title deriver\<close>

text \<open>
  White space and line terminators among the 8-bit code units: the characters \<open>trim\<close>
  removes and the class \<open>\s\<close> matches (tab, line feed, vertical tab, form feed, carriage
  return, space and the no-break space U+00A0).
\<close>

definition isWhiteSpace :: "char \<Rightarrow> bool" where
  "isWhiteSpace c =
     (c \<in> set [CHR 0x09, CHR 0x0A, CHR 0x0B, CHR 0x0C, CHR 0x0D, CHR 0x20, CHR 0xA0])"

text \<open>\<open>String.prototype.trim\<close>.\<close>

definition trim :: "string \<Rightarrow> string" where
  "trim s = rev (dropWhile isWhiteSpace (rev (dropWhile isWhiteSpace s)))"

text \<open>\<open>s.split('\n')[0]\<close>: the text before the first line feed.\<close>

definition firstLineOf :: "string \<Rightarrow> string" where
  "firstLineOf s = takeWhile (\<lambda>c. c \<noteq> CHR 0x0A) s"

text \<open>\<open>s.includes(sub)\<close>.\<close>

fun includesStr :: "string \<Rightarrow> string \<Rightarrow> bool" where
  "includesStr [] sub = (sub = [])"
| "includesStr (c # cs) sub = (take (length sub) (c # cs) = sub \<or> includesStr cs sub)"

definition isOwnersSuiteTitle :: "string \<Rightarrow> bool" where
  "isOwnersSuiteTitle title =
     (let lower = toLowerCase title in includesStr lower ''owner'' \<and> includesStr lower ''suite'')"

text \<open>
  \<open>/bed(room)?\s*(\d+)/i\<close> and \<open>/bath(room)?\s*(\d+)/i\<close> tried at the start of the input, for the
  literal \<open>bed\<close> or \<open>bath\<close>: group 2. When \<open>room\<close> follows the literal it is taken; without it
  the next character would be the \<open>r\<close>, which is neither white space nor a digit, so giving it
  back cannot help, and no white space is a digit.
\<close>

definition roomNumberAt :: "string \<Rightarrow> string \<Rightarrow> string option" where
  "roomNumberAt lit s =
     (case matchLiteral lit s of
        None \<Rightarrow> None
      | Some r \<Rightarrow>
          (let r2 = (case matchLiteral ''room'' r of Some x \<Rightarrow> x | None \<Rightarrow> r);
               ds = takeWhile isDigit (dropWhile isWhiteSpace r2)
           in if ds = [] then None else Some ds))"

text \<open>\<open>firstLine.match(...)\<close>: the leftmost position where the pattern matches.\<close>

fun roomNumberMatch :: "string \<Rightarrow> string \<Rightarrow> string option" where
  "roomNumberMatch lit [] = roomNumberAt lit []"
| "roomNumberMatch lit (c # cs) =
     (case roomNumberAt lit (c # cs) of
        Some ds \<Rightarrow> Some ds
      | None \<Rightarrow> roomNumberMatch lit cs)"

text \<open>\<open>/game/i.test(firstLine)\<close>, for the literal \<open>game\<close>.\<close>

fun literalTest :: "string \<Rightarrow> string \<Rightarrow> bool" where
  "literalTest lit [] = (matchLiteral lit [] \<noteq> None)"
| "literalTest lit (c # cs) = (matchLiteral lit (c # cs) \<noteq> None \<or> literalTest lit cs)"

text \<open>The class \<open>[a-zA-Z0-9]\<close>.\<close>

definition isAlnum :: "char \<Rightarrow> bool" where
  "isAlnum c =
     (c \<in> set ''abcdefghijklmnopqrstuvwxyzABCDEFGHIJKLMNOPQRSTUVWXYZ0123456789'')"

definition deriveRoomTokenFromText :: "string \<Rightarrow> string option" where
  "deriveRoomTokenFromText rawText =
     (let trimmed = trim rawText in
      if trimmed = [] then None
      else
        (let firstLine = trim (firstLineOf trimmed) in
         case roomNumberMatch ''bed'' firstLine of
           Some digits \<Rightarrow> Some (''Bed'' @ digits)
         | None \<Rightarrow>
             (case roomNumberMatch ''bath'' firstLine of
                Some digits \<Rightarrow> Some (''Bath'' @ digits)
              | None \<Rightarrow>
                  if literalTest ''game'' firstLine then Some ''Game''
                  else
                    (case findKeyword ROOM_KEYWORD_INFO (normalizeToken firstLine) of
                       Some info \<Rightarrow> Some (raw info)
                     | None \<Rightarrow>
                         (let fallback = filter isAlnum firstLine in
                          if fallback = [] then None else Some fallback)))))"

section \<open>The scene graph\<close>

text \<open>
  The part of a \<open>SceneNode\<close> the plugin reads and writes. A node with no \<open>fills\<close> property has
  \<open>fills = None\<close>; \<open>characters\<close> is the text of a \<open>TEXT\<close> node. The positions \<open>x\<close> and \<open>y\<close> are
  finite numbers, for which the sign of a difference is the sign of the difference of the
  reals they denote.
\<close>

datatype nodeType =
  BOOLEAN_OPERATION | COMPONENT | COMPONENT_SET | ELLIPSE | FRAME | GROUP | INSTANCE | LINE
  | POLYGON | RECTANGLE | SECTION | SLICE | STAR | TEXT | VECTOR

datatype paint = SOLID real real real | IMAGE string

record nodeProps =
  ntype :: nodeType
  name :: string
  characters :: string
  pos_x :: real
  pos_y :: real
  fills :: "paint list option"

text \<open>A node with a \<open>children\<close> property is a \<open>Parent\<close>, any other node a \<open>Leaf\<close>.\<close>

datatype node = Leaf nodeProps | Parent nodeProps "node list"

fun props :: "node \<Rightarrow> nodeProps" where
  "props (Leaf p) = p"
| "props (Parent p cs) = p"

fun children :: "node \<Rightarrow> node list" where
  "children (Leaf p) = []"
| "children (Parent p cs) = cs"

text \<open>\<open>'children' in node\<close>.\<close>

fun hasChildren :: "node \<Rightarrow> bool" where
  "hasChildren (Leaf p) = False"
| "hasChildren (Parent p cs) = True"

text \<open>
  A reference to a descendant of a node is the path of child indices that leads to it, paired
  with the node found there.
\<close>

type_synonym nodeRef = "nat list \<times> node"

text \<open>
  Modelled from the spec: the host's tree queries \<open>findOne\<close> and \<open>findAll\<close> (the tree query
  capability: "find the first descendant satisfying a predicate; find all descendants
  satisfying a predicate"). The descendants of a node, the node itself excluded, are visited
  in document order: a node before its children, the children from first to last.
\<close>

fun descendants :: "node \<Rightarrow> nodeRef list"
  and descendantsFrom :: "nat \<Rightarrow> node list \<Rightarrow> nodeRef list" where
  "descendants (Leaf p) = []"
| "descendants (Parent p cs) = descendantsFrom 0 cs"
| "descendantsFrom i [] = []"
| "descendantsFrom i (c # cs) =
     ([i], c) # map (\<lambda>(q, n). (i # q, n)) (descendants c) @ descendantsFrom (Suc i) cs"

definition findOne :: "(node \<Rightarrow> bool) \<Rightarrow> node \<Rightarrow> nodeRef option" where
  "findOne pred start = find (\<lambda>(q, n). pred n) (descendants start)"

definition findAll :: "(node \<Rightarrow> bool) \<Rightarrow> node \<Rightarrow> nodeRef list" where
  "findAll pred start = filter (\<lambda>(q, n). pred n) (descendants start)"

text \<open>
  An assignment to properties of the node a reference points to, inside the tree of the node
  the reference starts from.
\<close>

fun updateAt :: "(nodeProps \<Rightarrow> nodeProps) \<Rightarrow> nat list \<Rightarrow> node \<Rightarrow> node" where
  "updateAt f [] (Leaf p) = Leaf (f p)"
| "updateAt f [] (Parent p cs) = Parent (f p) cs"
| "updateAt f (i # q) (Leaf p) = Leaf p"
| "updateAt f (i # q) (Parent p cs) =
     (if i < length cs then Parent p (cs[i := updateAt f q (cs ! i)]) else Parent p cs)"

section \<open>The block auto-seeder\<close>

definition hasFills :: "node \<Rightarrow> bool" where
  "hasFills n = (fills (props n) \<noteq> None)"

definition isImageLayer :: "node \<Rightarrow> bool" where
  "isImageLayer n =
     (if \<not> hasFills n then False
      else (case ntype (props n) of
              RECTANGLE \<Rightarrow> True
            | ELLIPSE \<Rightarrow> True
            | POLYGON \<Rightarrow> True
            | STAR \<Rightarrow> True
            | VECTOR \<Rightarrow> True
            | BOOLEAN_OPERATION \<Rightarrow> True
            | LINE \<Rightarrow> True
            | _ \<Rightarrow> False))"

definition isTextNode :: "node \<Rightarrow> bool" where
  "isTextNode n = (ntype (props n) = TEXT)"

record AutoSeedResult =
  renamedLayers :: nat
  processedBlocks :: nat
  issues :: "string list"

text \<open>The decimal digits of a natural number, as a template literal renders it.\<close>

function showNat :: "nat \<Rightarrow> string" where
  "showNat n =
     (if n < 10 then [''0123456789'' ! n] else showNat (n div 10) @ [''0123456789'' ! (n mod 10)])"
  by pat_completeness auto
termination
  by (relation "measure id") auto

declare showNat.simps [simp del]

text \<open>The comparator \<open>(a, b) => { if (a.y !== b.y) return a.y - b.y; return a.x - b.x; }\<close>.\<close>

definition byVisualPosition :: "nodeRef \<Rightarrow> nodeRef \<Rightarrow> real" where
  "byVisualPosition a b =
     (if pos_y (props (snd a)) \<noteq> pos_y (props (snd b))
      then pos_y (props (snd a)) - pos_y (props (snd b))
      else pos_x (props (snd a)) - pos_x (props (snd b)))"

text \<open>The two assignments \<open>img.name = ...\<close> and \<open>img.fills = [{ type: 'SOLID', color: ... }]\<close>.\<close>

definition placeholderFill :: paint where
  "placeholderFill = SOLID 0.53 0.73 0.93"

definition seedImage :: "string \<Rightarrow> nodeProps \<Rightarrow> nodeProps" where
  "seedImage newName p = p\<lparr>name := newName, fills := Some [placeholderFill]\<rparr>"

definition ownersPattern :: "string list" where
  "ownersPattern = [''Owners_1'', ''Owners_2'', ''Owners_Bath_1'', ''Owners_Bath_2'', ''Owners_WIC_1'']"

text \<open>
  The loop \<open>for (let i = 0; i < imageNodes.length; i++)\<close> of the Owners Suite branch, from
  index \<open>i\<close> on; the state is the block and the result record.
\<close>

fun ownersLoop :: "nat \<Rightarrow> nodeRef list \<Rightarrow> node \<times> AutoSeedResult \<Rightarrow> node \<times> AutoSeedResult" where
  "ownersLoop i [] st = st"
| "ownersLoop i (img # rest) (block, res) =
     ownersLoop (i + 1) rest
       (updateAt
          (seedImage (if i < length ownersPattern then ownersPattern ! i
                      else ''Owners_'' @ showNat (i + 1)))
          (fst img) block,
        res\<lparr>renamedLayers := renamedLayers res + 1\<rparr>)"

text \<open>The loop \<open>for (const img of imageNodes)\<close> of the default branch, with its counter.\<close>

fun defaultLoop ::
  "string \<Rightarrow> nat \<Rightarrow> nodeRef list \<Rightarrow> node \<times> AutoSeedResult \<Rightarrow> node \<times> AutoSeedResult" where
  "defaultLoop token index [] st = st"
| "defaultLoop token index (img # rest) (block, res) =
     defaultLoop token (index + 1) rest
       (updateAt (seedImage (token @ ''_'' @ showNat index)) (fst img) block,
        res\<lparr>renamedLayers := renamedLayers res + 1\<rparr>)"

definition quote :: string where
  "quote = [CHR 0x22]"

definition pushIssue :: "string \<Rightarrow> AutoSeedResult \<Rightarrow> AutoSeedResult" where
  "pushIssue msg res = res\<lparr>issues := issues res @ [msg]\<rparr>"

text \<open>The body of the loop \<open>for (const block of blocks)\<close>.\<close>

definition seedBlock :: "node \<Rightarrow> AutoSeedResult \<Rightarrow> node \<times> AutoSeedResult" where
  "seedBlock block res =
     (case findOne isTextNode block of
        None \<Rightarrow>
          (block, pushIssue (''Block '' @ quote @ name (props block) @ quote
                              @ '': no text node found for room title.'') res)
      | Some titleNode \<Rightarrow>
          (let title = trim (characters (props (snd titleNode))) in
           if title = [] then
             (block, pushIssue (''Block '' @ quote @ name (props block) @ quote
                                 @ '': title text is empty.'') res)
           else
             (let imageNodes = findAll isImageLayer block in
              if length imageNodes = 0 then
                (block, pushIssue (''Block '' @ quote @ name (props block) @ quote
                                    @ '': no image layers found to rename.'') res)
              else
                (let sortedNodes = sortBy byVisualPosition imageNodes in
                 if isOwnersSuiteTitle title then
                   (case ownersLoop 0 sortedNodes (block, res) of
                      (block', res') \<Rightarrow>
                        (block', res'\<lparr>processedBlocks := processedBlocks res' + 1\<rparr>))
                 else
                   (case deriveRoomTokenFromText title of
                      None \<Rightarrow>
                        (block, pushIssue (''Block '' @ quote @ name (props block) @ quote
                                            @ '': could not derive room token from '' @ quote
                                            @ title @ quote @ ''.'') res)
                    | Some token \<Rightarrow>
                        (case defaultLoop token 1 sortedNodes (block, res) of
                           (block', res') \<Rightarrow>
                             (block', res'\<lparr>processedBlocks := processedBlocks res' + 1\<rparr>)))))))"

text \<open>
  The loop over \<open>blocks\<close>, the children of the container that have children themselves, in
  the order of \<open>container.children\<close>; every block is put back at its place.
\<close>

fun seedBlocks :: "node list \<Rightarrow> AutoSeedResult \<Rightarrow> node list \<times> AutoSeedResult" where
  "seedBlocks [] res = ([], res)"
| "seedBlocks (c # cs) res =
     (if hasChildren c then
        (case seedBlock c res of
           (c', res') \<Rightarrow> (case seedBlocks cs res' of (cs', res'') \<Rightarrow> (c' # cs', res'')))
      else (case seedBlocks cs res of (cs', res') \<Rightarrow> (c # cs', res')))"

text \<open>
  \<open>autoSeedRoomNames(container)\<close>: the container after the assignments, and the result. The
  parameter type gives the container a \<open>children\<close> property.
\<close>

definition autoSeedRoomNames :: "node \<Rightarrow> node \<times> AutoSeedResult" where
  "autoSeedRoomNames container =
     (let blocks = filter hasChildren (children container) in
      if length blocks = 0 then
        (container,
         \<lparr>renamedLayers = 0, processedBlocks = 0,
          issues = [''No room blocks found. Expected child groups/frames under the selected node.'']\<rparr>)
      else
        (case seedBlocks (children container) \<lparr>renamedLayers = 0, processedBlocks = 0, issues = []\<rparr> of
           (cs', res) \<Rightarrow> (Parent (props container) cs', res)))"

section \<open>Vocabulary of the proofs\<close>

fun noDouble :: "string \<Rightarrow> bool" where
  "noDouble (c # d # cs) = (\<not> (c = CHR ''_'' \<and> d = CHR ''_'') \<and> noDouble (d # cs))"
| "noDouble cs = True"

definition normChar :: "char \<Rightarrow> bool" where
  "normChar c = (isLowerAlnum c \<or> c = CHR ''_'')"


text \<open>
  A keyword occurs in a string as a whole underscore-delimited token: it is preceded by the
  start of the string or an underscore and followed by the end of the string or an underscore.
\<close>

definition occursAsToken :: "string \<Rightarrow> string \<Rightarrow> bool" where
  "occursAsToken kw s =
     (\<exists>pre post. s = pre @ kw @ post
        \<and> (pre = [] \<or> last pre = CHR ''_'')
        \<and> (post = [] \<or> hd post = CHR ''_''))"

definition mkInfo :: "string \<Rightarrow> RoomKeywordInfo" where
  "mkInfo r = \<lparr>raw = r, norm = normalizeToken r\<rparr>"

definition bnd :: "string \<Rightarrow> bool" where
  "bnd post = (post = [] \<or> hd post = CHR ''_'')"

definition occ :: "bool \<Rightarrow> string \<Rightarrow> string \<Rightarrow> bool" where
  "occ atStart kw s =
     (\<exists>pre post. s = pre @ kw @ post \<and> (if pre = [] then atStart else last pre = CHR ''_'')
        \<and> bnd post)"


subsection \<open>Blocks, results and references\<close>

text \<open>The names the Owners Suite branch assigns, by 0-based position.\<close>

definition ownersName :: "nat \<Rightarrow> string" where
  "ownersName i =
     (if i < length ownersPattern then ownersPattern ! i else ''Owners_'' @ showNat (i + 1))"

text \<open>The tree after the assignments of a loop that names the image nodes from a counter.\<close>

fun renameAll :: "(nat \<Rightarrow> string) \<Rightarrow> nat \<Rightarrow> nodeRef list \<Rightarrow> node \<Rightarrow> node" where
  "renameAll nameOf i [] b = b"
| "renameAll nameOf i (img # rest) b =
     renameAll nameOf (i + 1) rest (updateAt (seedImage (nameOf i)) (fst img) b)"

text \<open>The trimmed text of the first text node of a block, if it has one.\<close>

definition titleOf :: "node \<Rightarrow> string option" where
  "titleOf block =
     map_option (\<lambda>t. trim (characters (props (snd t)))) (findOne isTextNode block)"

text \<open>
  A block reaches a renaming branch: it has a non-empty title and image nodes, and either the
  title is an Owners Suite title or a token can be derived from it.
\<close>

definition reachesRenaming :: "node \<Rightarrow> bool" where
  "reachesRenaming block =
     (case titleOf block of
        None \<Rightarrow> False
      | Some title \<Rightarrow>
          title \<noteq> [] \<and> findAll isImageLayer block \<noteq> []
          \<and> (isOwnersSuiteTitle title \<or> deriveRoomTokenFromText title \<noteq> None))"

text \<open>
  A block ends in the default branch with no token: it has a non-empty title that is not an
  Owners Suite title, it has image nodes, and no token can be derived from the title.
\<close>

definition tokenFails :: "node \<Rightarrow> bool" where
  "tokenFails block =
     (case titleOf block of
        None \<Rightarrow> False
      | Some title \<Rightarrow>
          title \<noteq> [] \<and> findAll isImageLayer block \<noteq> []
          \<and> \<not> isOwnersSuiteTitle title \<and> deriveRoomTokenFromText title = None)"

text \<open>The result record before any block is processed, and the sum of two results.\<close>

definition noResult :: AutoSeedResult where
  "noResult = \<lparr>renamedLayers = 0, processedBlocks = 0, issues = []\<rparr>"

definition addResult :: "AutoSeedResult \<Rightarrow> AutoSeedResult \<Rightarrow> AutoSeedResult" where
  "addResult r d =
     \<lparr>renamedLayers = renamedLayers r + renamedLayers d,
      processedBlocks = processedBlocks r + processedBlocks d,
      issues = issues r @ issues d\<rparr>"

text \<open>The properties of the node a path leads to, if it leads to one.\<close>

fun propsAt :: "node \<Rightarrow> nat list \<Rightarrow> nodeProps option" where
  "propsAt n [] = Some (props n)"
| "propsAt (Leaf p) (i # q) = None"
| "propsAt (Parent p cs) (i # q) = (if i < length cs then propsAt (cs ! i) q else None)"

subsection \<open>Example blocks\<close>

text \<open>
  Nodes for the examples: a group has no fills, every other node an empty list of fills.
\<close>

definition exampleProps :: "nodeType \<Rightarrow> string \<Rightarrow> string \<Rightarrow> real \<Rightarrow> real \<Rightarrow> nodeProps" where
  "exampleProps t n c x y =
     \<lparr>ntype = t, name = n, characters = c, pos_x = x, pos_y = y,
      fills = (if t = GROUP then None else Some [])\<rparr>"

text \<open>An Owners Suite block with two image nodes on one row.\<close>

definition ownersBlock2 :: node where
  "ownersBlock2 =
     Parent (exampleProps FRAME ''Block A'' [] 0 0)
       [Leaf (exampleProps TEXT ''Title'' ''Owner's Suite'' 0 0),
        Leaf (exampleProps RECTANGLE ''Rectangle 1'' [] 10 20),
        Leaf (exampleProps RECTANGLE ''Rectangle 2'' [] 0 20)]"

text \<open>A block whose title has no letter or digit.\<close>

definition untitledBlock :: node where
  "untitledBlock =
     Parent (exampleProps FRAME ''Block B'' [] 0 0)
       [Leaf (exampleProps TEXT ''Title'' ''???'' 0 0),
        Leaf (exampleProps RECTANGLE ''Rectangle 3'' [] 0 0)]"

text \<open>An Owners Suite block with six image nodes, two of them inside a group.\<close>

definition ownersBlock6 :: node where
  "ownersBlock6 =
     Parent (exampleProps FRAME ''Block A'' [] 0 0)
       [Leaf (exampleProps TEXT ''Title'' ''Owner's Suite'' 0 0),
        Leaf (exampleProps RECTANGLE ''Rectangle 1'' [] 10 20),
        Leaf (exampleProps RECTANGLE ''Rectangle 2'' [] 0 20),
        Parent (exampleProps GROUP ''Group 1'' [] 0 0)
          [Leaf (exampleProps ELLIPSE ''Ellipse 1'' [] 5 10),
           Leaf (exampleProps RECTANGLE ''Rectangle 3'' [] 5.5 30)],
        Leaf (exampleProps RECTANGLE ''Rectangle 4'' [] 0 40),
        Leaf (exampleProps RECTANGLE ''Rectangle 5'' [] 0 50)]"

section \<open>The normalizer: proofs\<close>

lemma toLowerChar_normChar: "normChar c \<Longrightarrow> toLowerChar c = c"
  unfolding normChar_def isLowerAlnum_def
  by (simp, elim disjE; simp add: toLowerChar_def)

lemma toLowerCase_fixed: "list_all normChar s \<Longrightarrow> toLowerCase s = s"
  by (induction s) (simp_all add: toLowerCase_def toLowerChar_normChar)

lemma normChar_not_dot: "normChar c \<Longrightarrow> c \<noteq> CHR ''.''"
  unfolding normChar_def isLowerAlnum_def by auto

lemma stripExtension_fixed: "list_all normChar s \<Longrightarrow> stripExtension s = s"
  by (induction s) (auto dest: normChar_not_dot)

lemma replaceRuns_fixed:
  "list_all (\<lambda>c. p c \<longrightarrow> c = CHR ''_'') s \<Longrightarrow> noDouble s \<Longrightarrow> replaceRuns p s = s"
proof (induction p s rule: replaceRuns.induct)
  case (1 p)
  show ?case by simp
next
  case (2 p c cs)
  show ?case
  proof (cases "p c")
    case True
    with 2 have c: "c = CHR ''_''" by simp
    have dw: "dropWhile p cs = cs"
    proof (cases cs)
      case Nil
      then show ?thesis by simp
    next
      case (Cons d ds)
      with 2 c have "d \<noteq> CHR ''_''" by simp
      with 2 Cons have "\<not> p d" by auto
      with Cons show ?thesis by simp
    qed
    have "noDouble cs" using "2.prems"(2) by (cases cs) simp_all
    with 2 True dw c show ?thesis by simp
  next
    case False
    have "noDouble cs" using "2.prems"(2) by (cases cs) simp_all
    with 2 False show ?thesis by simp
  qed
qed

lemma replaceRuns_chars:
  "list_all (\<lambda>c. \<not> p c \<or> c = CHR ''_'') (replaceRuns p s)"
proof (induction p s rule: replaceRuns.induct)
  case (1 p)
  show ?case by simp
next
  case (2 p c cs)
  then show ?case by simp
qed

lemma replaceRuns_subset:
  "set (replaceRuns p s) \<subseteq> insert (CHR ''_'') (set s)"
proof (induction p s rule: replaceRuns.induct)
  case (1 p)
  show ?case by simp
next
  case (2 p c cs)
  have "set (dropWhile p cs) \<subseteq> set cs" by (auto dest: set_dropWhileD)
  with 2 show ?case by auto
qed

lemma replaceRuns_hd:
  "s \<noteq> [] \<Longrightarrow> \<not> p (hd s) \<Longrightarrow> replaceRuns p s = hd s # replaceRuns p (tl s)"
  by (cases s) simp_all

lemma dropWhile_hd: "dropWhile p s = d # ds \<Longrightarrow> \<not> p d"
  by (metis hd_dropWhile list.sel(1) list.simps(3))

lemma replaceRuns_noDouble: "noDouble (replaceRuns isUnderscore s)"
proof (induction "isUnderscore" s rule: replaceRuns.induct)
  case 1
  show ?case by simp
next
  case (2 c cs)
  show ?case
  proof (cases "isUnderscore c")
    case True
    show ?thesis
    proof (cases "dropWhile isUnderscore cs")
      case Nil
      with True show ?thesis by (simp del: dropWhile_eq_Nil_conv)
    next
      case (Cons d ds)
      then have nd: "\<not> isUnderscore d" by (rule dropWhile_hd)
      have "noDouble (replaceRuns isUnderscore (d # ds))" using 2(1)[OF True] Cons by simp
      with True Cons nd show ?thesis by (simp add: isUnderscore_def)
    qed
  next
    case False
    have ih: "noDouble (replaceRuns isUnderscore cs)" using 2(2)[OF False] .
    show ?thesis
    proof (cases "replaceRuns isUnderscore cs")
      case Nil
      with False show ?thesis by simp
    next
      case (Cons e es)
      with False ih show ?thesis by (simp add: isUnderscore_def)
    qed
  qed
qed

lemma noDouble_tl: "noDouble (c # cs) \<Longrightarrow> noDouble cs"
  by (cases cs) simp_all

lemma noDouble_dropWhile: "noDouble s \<Longrightarrow> noDouble (dropWhile p s)"
  by (induction s) (auto dest: noDouble_tl)

lemma dropTrailing_hd:
  "dropTrailingUnderscores s = e # es \<Longrightarrow> \<exists>t. s = e # t"
  by (cases s) (auto split: if_splits)

lemma noDouble_dropTrailing: "noDouble s \<Longrightarrow> noDouble (dropTrailingUnderscores s)"
proof (induction s)
  case Nil
  show ?case by simp
next
  case (Cons c cs)
  then have ih: "noDouble (dropTrailingUnderscores cs)" by (auto dest: noDouble_tl)
  show ?case
  proof (cases "dropTrailingUnderscores cs")
    case Nil
    then show ?thesis by simp
  next
    case (Cons e es)
    then obtain t where "cs = e # t" using dropTrailing_hd by blast
    with Cons.prems Cons ih show ?thesis by simp
  qed
qed

lemma set_dropTrailing: "set (dropTrailingUnderscores s) \<subseteq> set s"
  by (induction s) auto

lemma dropTrailing_idem:
  "dropTrailingUnderscores (dropTrailingUnderscores s) = dropTrailingUnderscores s"
proof (induction s)
  case Nil
  show ?case by simp
next
  case (Cons c cs)
  show ?case
  proof (cases "list_all isUnderscore (c # cs)")
    case True
    then show ?thesis by simp
  next
    case False
    have "\<not> list_all isUnderscore (c # dropTrailingUnderscores cs)"
    proof
      assume a: "list_all isUnderscore (c # dropTrailingUnderscores cs)"
      have "list_all isUnderscore t \<Longrightarrow> dropTrailingUnderscores t = []" for t
        by (cases t) simp_all
      moreover from a have "list_all isUnderscore (dropTrailingUnderscores cs)" by simp
      ultimately have "dropTrailingUnderscores cs = []"
        using Cons.IH by metis
      then have "list_all isUnderscore cs"
        by (induction cs) (auto split: if_splits)
      with a False show False by simp
    qed
    with False Cons.IH show ?thesis by simp
  qed
qed

lemma trimUnderscores_idem: "trimUnderscores (trimUnderscores s) = trimUnderscores s"
proof -
  define t where "t = dropWhile isUnderscore s"
  have "dropWhile isUnderscore (dropTrailingUnderscores t) = dropTrailingUnderscores t"
  proof (cases "dropTrailingUnderscores t")
    case Nil
    then show ?thesis by simp
  next
    case (Cons e es)
    then obtain u where u: "t = e # u" using dropTrailing_hd by blast
    then have "\<not> isUnderscore e" using dropWhile_hd t_def by metis
    with Cons show ?thesis by simp
  qed
  then show ?thesis
    by (simp add: trimUnderscores_def t_def dropTrailing_idem)
qed

lemma normalizeToken_chars: "list_all normChar (normalizeToken x)"
proof -
  define a where "a = replaceRuns notLowerAlnum (stripExtension (toLowerCase x))"
  have "list_all normChar a"
    using replaceRuns_chars[of notLowerAlnum "stripExtension (toLowerCase x)"]
    by (simp add: a_def normChar_def[abs_def] notLowerAlnum_def)
  then have "set a \<subseteq> Collect normChar" by (auto simp: list_all_iff)
  moreover have "CHR ''_'' \<in> Collect normChar" by (simp add: normChar_def)
  ultimately have "set (replaceRuns isUnderscore a) \<subseteq> Collect normChar"
    using replaceRuns_subset[of isUnderscore a] by auto
  moreover have "set (trimUnderscores (replaceRuns isUnderscore a))
      \<subseteq> set (replaceRuns isUnderscore a)"
    unfolding trimUnderscores_def
    using set_dropTrailing set_dropWhileD by fastforce
  ultimately show ?thesis
    by (auto simp: normalizeToken_def a_def list_all_iff)
qed

lemma normalizeToken_noDouble: "noDouble (normalizeToken x)"
  by (simp add: normalizeToken_def trimUnderscores_def noDouble_dropTrailing
      noDouble_dropWhile replaceRuns_noDouble)

lemma normalizeToken_trimmed: "trimUnderscores (normalizeToken x) = normalizeToken x"
  by (simp add: normalizeToken_def trimUnderscores_idem)

lemma normalizeToken_fixed:
  assumes "list_all normChar s" "noDouble s" "trimUnderscores s = s"
  shows "normalizeToken s = s"
proof -
  have 1: "stripExtension (toLowerCase s) = s"
    using assms(1) by (simp add: toLowerCase_fixed stripExtension_fixed)
  have 2: "replaceRuns notLowerAlnum s = s"
    using assms(1,2)
    by (intro replaceRuns_fixed) (auto simp: list_all_iff normChar_def notLowerAlnum_def)
  have 3: "replaceRuns isUnderscore s = s"
    using assms(2) by (intro replaceRuns_fixed) (auto simp: list_all_iff isUnderscore_def)
  show ?thesis by (simp add: normalizeToken_def 1 2 3 assms(3))
qed

text \<open>
  C6: the normalizer is idempotent, \<open>normalize(normalize(x)) = normalize(x)\<close> for every input
  string \<open>x\<close>, and the empty input yields the empty output.
\<close>

theorem normalizeToken_idempotent:
  "normalizeToken (normalizeToken x) = normalizeToken x \<and> normalizeToken [] = []"
proof
  show "normalizeToken (normalizeToken x) = normalizeToken x"
    by (rule normalizeToken_fixed)
      (rule normalizeToken_chars normalizeToken_noDouble normalizeToken_trimmed)+
  show "normalizeToken [] = []"
    by (simp add: normalizeToken_def toLowerCase_def trimUnderscores_def)
qed

section \<open>The catalog and the filename resolver: proofs\<close>

subsection \<open>Sorting with a comparator\<close>

lemma insertBy_insort_key:
  assumes "\<And>a b. (cmp a b \<le> 0) = (key a \<le> key b)"
  shows "insertBy cmp a xs = insort_key key a xs"
  by (induction xs) (simp_all add: assms)

lemma sortBy_sort_key:
  assumes "\<And>a b. (cmp a b \<le> 0) = (key a \<le> key b)"
  shows "sortBy cmp xs = sort_key key xs"
proof -
  have "insertBy cmp = insort_key key"
    by (intro ext) (rule insertBy_insort_key[OF assms])
  then show ?thesis by (simp add: sortBy_def sort_key_def)
qed

lemma catalog_sort_key:
  "ROOM_KEYWORD_INFO = sort_key (\<lambda>e. - int (length (norm e))) (map mkInfo ROOM_KEYWORDS)"
proof -
  have "mkInfo = (\<lambda>r. \<lparr>raw = r, norm = normalizeToken r\<rparr>)"
    by (intro ext) (simp add: mkInfo_def)
  then show ?thesis
    unfolding ROOM_KEYWORD_INFO_def
    by (simp add: sortBy_sort_key[where key = "\<lambda>e. - int (length (norm e))"])
qed

lemma catalog_set: "set ROOM_KEYWORD_INFO = mkInfo ` set ROOM_KEYWORDS"
  by (simp add: catalog_sort_key)

lemma catalog_norm:
  assumes "e \<in> set ROOM_KEYWORD_INFO"
  shows "norm e = normalizeToken (raw e)" and "list_all normChar (norm e)"
proof -
  from assms obtain r where "e = mkInfo r" by (auto simp: catalog_set)
  then show "norm e = normalizeToken (raw e)" by (simp add: mkInfo_def)
  then show "list_all normChar (norm e)" by (simp add: normalizeToken_chars)
qed

subsection \<open>The boundary pattern on normalized strings\<close>

lemma toLower_toUpper: "normChar c \<Longrightarrow> toLowerChar (toUpperChar c) = c"
  unfolding normChar_def isLowerAlnum_def
  by (simp, elim disjE; simp add: toLowerChar_def toUpperChar_def)

lemma eqIgnoreCase_normChar:
  assumes "normChar a" "normChar b"
  shows "eqIgnoreCase a b = (a = b)"
proof
  assume "eqIgnoreCase a b"
  then have "toLowerChar (toUpperChar a) = toLowerChar (toUpperChar b)"
    by (simp add: eqIgnoreCase_def)
  with assms show "a = b" by (simp add: toLower_toUpper)
next
  assume "a = b"
  then show "eqIgnoreCase a b" by (simp add: eqIgnoreCase_def)
qed

lemma matchLiteral_iff:
  "list_all normChar kw \<Longrightarrow> list_all normChar s \<Longrightarrow>
   (matchLiteral kw s = Some r) = (s = kw @ r)"
  by (induction kw s rule: matchLiteral.induct) (auto simp: eqIgnoreCase_normChar)

lemma matchKeywordEnd_iff:
  assumes "list_all normChar kw" "list_all normChar s"
  shows "(matchKeywordEnd kw s \<noteq> None) = (\<exists>post. s = kw @ post \<and> bnd post)"
proof (cases "matchLiteral kw s")
  case None
  then have "\<And>r. s \<noteq> kw @ r" using matchLiteral_iff[OF assms] by auto
  with None show ?thesis by (auto simp: matchKeywordEnd_def)
next
  case (Some r)
  then have s: "s = kw @ r" using matchLiteral_iff[OF assms] by simp
  show ?thesis using Some s
    by (cases r) (auto simp: matchKeywordEnd_def bnd_def)
qed

lemma matchKeywordAt_iff:
  assumes "list_all normChar kw" "list_all normChar s"
  shows "(matchKeywordAt atStart kw s \<noteq> None) =
    ((atStart \<and> (\<exists>post. s = kw @ post \<and> bnd post))
      \<or> (\<exists>post. s = CHR ''_'' # kw @ post \<and> bnd post))"
proof (cases s)
  case Nil
  then show ?thesis
    using matchKeywordEnd_iff[OF assms]
    by (auto simp: matchKeywordAt_def split: option.splits)
next
  case (Cons c cs)
  then have cs: "list_all normChar cs" using assms(2) by simp
  show ?thesis
    using matchKeywordEnd_iff[OF assms] matchKeywordEnd_iff[OF assms(1) cs] Cons
    by (auto simp: matchKeywordAt_def split: option.splits)
qed

lemma occ_Nil: "occ atStart kw [] = (atStart \<and> kw = [])"
  by (auto simp: occ_def bnd_def)

lemma occ_Cons:
  "occ atStart kw (c # cs) =
    ((atStart \<and> (\<exists>post. c # cs = kw @ post \<and> bnd post))
      \<or> (\<exists>post. c # cs = CHR ''_'' # kw @ post \<and> bnd post)
      \<or> occ False kw cs)"
proof
  assume "occ atStart kw (c # cs)"
  then obtain pre post where p: "c # cs = pre @ kw @ post"
      "if pre = [] then atStart else last pre = CHR ''_''" "bnd post"
    by (auto simp: occ_def)
  show "(atStart \<and> (\<exists>post. c # cs = kw @ post \<and> bnd post))
      \<or> (\<exists>post. c # cs = CHR ''_'' # kw @ post \<and> bnd post)
      \<or> occ False kw cs"
  proof (cases pre)
    case Nil
    with p show ?thesis by auto
  next
    case (Cons d pre')
    show ?thesis
    proof (cases pre')
      case Nil
      with Cons p show ?thesis by auto
    next
      case (Cons e es)
      with \<open>pre = d # pre'\<close> p have "cs = pre' @ kw @ post" "pre' \<noteq> []" "last pre' = CHR ''_''"
        by auto
      with p(3) have "occ False kw cs" unfolding occ_def by (intro exI[of _ pre'] exI[of _ post]) simp
      then show ?thesis by simp
    qed
  qed
next
  assume "(atStart \<and> (\<exists>post. c # cs = kw @ post \<and> bnd post))
      \<or> (\<exists>post. c # cs = CHR ''_'' # kw @ post \<and> bnd post)
      \<or> occ False kw cs"
  then consider (a) post where "atStart" "c # cs = kw @ post" "bnd post"
    | (b) post where "c # cs = CHR ''_'' # kw @ post" "bnd post"
    | (c) "occ False kw cs" by blast
  then show "occ atStart kw (c # cs)"
  proof cases
    case a
    then show ?thesis unfolding occ_def by (intro exI[of _ "[]"] exI[of _ post]) simp
  next
    case b
    then show ?thesis unfolding occ_def by (intro exI[of _ "[CHR ''_'']"] exI[of _ post]) simp
  next
    case c
    then obtain pre post where "cs = pre @ kw @ post" "pre \<noteq> []" "last pre = CHR ''_''" "bnd post"
      by (auto simp: occ_def split: if_splits)
    then show ?thesis unfolding occ_def by (intro exI[of _ "c # pre"] exI[of _ post]) simp
  qed
qed

lemma keywordSearch_iff:
  "list_all normChar kw \<Longrightarrow> list_all normChar s \<Longrightarrow>
   (keywordSearch atStart i kw s \<noteq> None) = occ atStart kw s"
proof (induction atStart i kw s rule: keywordSearch.induct)
  case (1 atStart i kw)
  then show ?case
    using matchKeywordAt_iff[of kw "[]" atStart]
    by (auto simp: occ_Nil bnd_def split: option.splits)
next
  case (2 atStart i kw c cs)
  have at: "(matchKeywordAt atStart kw (c # cs) \<noteq> None) =
    ((atStart \<and> (\<exists>post. c # cs = kw @ post \<and> bnd post))
      \<or> (\<exists>post. c # cs = CHR ''_'' # kw @ post \<and> bnd post))"
    using matchKeywordAt_iff[OF "2.prems"] .
  show ?case
  proof (cases "matchKeywordAt atStart kw (c # cs)")
    case None
    then have ks: "(keywordSearch atStart i kw (c # cs) \<noteq> None) = occ False kw cs"
      using 2 by simp
    from None at have "\<not> ((atStart \<and> (\<exists>post. c # cs = kw @ post \<and> bnd post))
      \<or> (\<exists>post. c # cs = CHR ''_'' # kw @ post \<and> bnd post))" by simp
    then have "occ atStart kw (c # cs) = occ False kw cs"
      unfolding occ_Cons[of atStart] by blast
    with ks show ?thesis by simp
  next
    case (Some n)
    with at have "(atStart \<and> (\<exists>post. c # cs = kw @ post \<and> bnd post))
      \<or> (\<exists>post. c # cs = CHR ''_'' # kw @ post \<and> bnd post)" by simp
    then have "occ atStart kw (c # cs)"
      unfolding occ_Cons[of atStart] by blast
    with Some show ?thesis by simp
  qed
qed

lemma keywordTest_iff:
  assumes "list_all normChar kw" "list_all normChar s"
  shows "keywordTest kw s = occursAsToken kw s"
proof -
  have "occ True kw s = occursAsToken kw s"
    by (auto simp: occ_def occursAsToken_def bnd_def)
  then show ?thesis
    using keywordSearch_iff[OF assms, of True 0]
    by (simp add: keywordTest_def keywordMatch_def)
qed

lemma findKeyword_None:
  "(findKeyword cat n = None) = (\<forall>e \<in> set cat. \<not> keywordTest (norm e) n)"
  by (induction cat) auto

lemma findKeyword_Some:
  "findKeyword cat n = Some e \<Longrightarrow>
   \<exists>i < length cat. cat ! i = e \<and> keywordTest (norm e) n
      \<and> (\<forall>j < i. \<not> keywordTest (norm (cat ! j)) n)"
proof (induction cat)
  case Nil
  then show ?case by simp
next
  case (Cons a cat)
  show ?case
  proof (cases "keywordTest (norm a) n")
    case True
    with Cons.prems have "a = e" by simp
    with True show ?thesis by (intro exI[of _ 0]) simp
  next
    case False
    with Cons obtain i where i: "i < length cat" "cat ! i = e" "keywordTest (norm e) n"
      "\<forall>j < i. \<not> keywordTest (norm (cat ! j)) n" by auto
    have "\<forall>j < Suc i. \<not> keywordTest (norm ((a # cat) ! j)) n"
      using False i(4) by (auto simp: less_Suc_eq_0_disj)
    with i show ?thesis by (intro exI[of _ "Suc i"]) simp
  qed
qed

subsection \<open>Index extraction\<close>

lemma takeWhile_isDigit_digits: "list_all isDigit (takeWhile isDigit t)"
  by (induction t) simp_all

lemma ofMatch_Some:
  "ofMatch t = Some i \<Longrightarrow> i = takeWhile isDigit (optUnderscore t) \<and> i \<noteq> []"
  by (auto simp: ofMatch_def Let_def split: if_splits)

lemma underscoreMatch_Some:
  "underscoreMatch t = Some i \<Longrightarrow> i = takeWhile isDigit (optUnderscore t) \<and> i \<noteq> []"
  by (auto simp: underscoreMatch_def Let_def split: if_splits list.splits)

lemma not_digit_underscore: "\<not> isDigit CHR ''_''"
  by (simp add: isDigit_def)

lemma not_digit_o: "\<not> isDigit CHR ''o''"
  by (simp add: isDigit_def)

lemma takeWhile_digits_then:
  "list_all isDigit ds \<Longrightarrow> \<not> isDigit x \<Longrightarrow> takeWhile isDigit (ds @ x # r) = ds"
  by (induction ds) simp_all

lemma dropWhile_digits_then:
  "list_all isDigit ds \<Longrightarrow> \<not> isDigit x \<Longrightarrow> dropWhile isDigit (ds @ x # r) = x # r"
  by (induction ds) simp_all

lemma optUnderscore_digits:
  assumes "u = [] \<or> u = ''_''" "ds \<noteq> []" "list_all isDigit ds"
  shows "optUnderscore (u @ ds @ r) = ds @ r"
proof -
  obtain d ds' where ds: "ds = d # ds'" using assms(2) by (cases ds) auto
  with assms(3) have "d \<noteq> CHR ''_''" using not_digit_underscore by auto
  with assms(1) ds show ?thesis by (auto simp: optUnderscore_def)
qed

lemma ofMatch_N_of_M:
  assumes "u = [] \<or> u = ''_''" "v = [] \<or> v = ''_''" "ds \<noteq> []" "list_all isDigit ds" "isDigit m"
  shows "ofMatch (u @ ds @ v @ ''of'' @ m # rest) = Some ds"
proof -
  have 1: "optUnderscore (u @ ds @ v @ ''of'' @ m # rest) = ds @ v @ ''of'' @ m # rest"
    using optUnderscore_digits[OF assms(1,3,4)] .
  obtain x r where xr: "v @ ''of'' @ m # rest = x # r" "\<not> isDigit x"
    using assms(2) not_digit_underscore not_digit_o by auto
  have 2: "takeWhile isDigit (ds @ v @ ''of'' @ m # rest) = ds"
    using takeWhile_digits_then[OF assms(4) xr(2)] xr(1) by simp
  have 3: "dropWhile isDigit (ds @ v @ ''of'' @ m # rest) = v @ ''of'' @ m # rest"
    using dropWhile_digits_then[OF assms(4) xr(2)] xr(1) by simp
  have 4: "ofLookahead (v @ ''of'' @ m # rest)"
    using assms(2,5) by (auto simp: ofLookahead_def optUnderscore_def)
  show ?thesis
    using assms(3) 4 unfolding ofMatch_def Let_def 1 2 3 by simp
qed

lemma no_leading_digit:
  assumes "optUnderscore t = [] \<or> \<not> isDigit (hd (optUnderscore t))"
  shows "ofMatch t = None \<and> underscoreMatch t = None"
proof -
  have "takeWhile isDigit (optUnderscore t) = []"
    using assms by (cases "optUnderscore t") auto
  then show ?thesis by (simp add: ofMatch_def underscoreMatch_def)
qed

lemma findKeyword_mem: "findKeyword cat n = Some e \<Longrightarrow> e \<in> set cat"
  by (induction cat) (auto split: if_splits)

lemma findKeyword_test: "findKeyword cat n = Some e \<Longrightarrow> keywordTest (norm e) n"
  by (induction cat) (auto split: if_splits)

lemma parse_unfold:
  "findKeyword ROOM_KEYWORD_INFO (normalizeToken (stripExtension fname)) = Some e \<Longrightarrow>
   parseFilenameToTargetLayer fname =
     Some (raw e @ ''_'' @
       (case extractIndex (afterKeywordOf (norm e) (normalizeToken (stripExtension fname))) of
          None \<Rightarrow> ''1'' | Some i \<Rightarrow> i))"
  by (simp add: parseFilenameToTargetLayer_def)

lemma parse_None:
  "(parseFilenameToTargetLayer fname = None) =
   (findKeyword ROOM_KEYWORD_INFO (normalizeToken (stripExtension fname)) = None)"
  by (simp add: parseFilenameToTargetLayer_def Let_def split: option.splits)

text \<open>
  C1: the resolver scans the catalog in order and the first entry whose normalized form occurs
  in the normalized filename as a whole underscore-delimited token wins; no entry matching
  gives no-match; \<open>Owners_Bath_1.png\<close> resolves to \<open>Owners_Bath_1\<close>, not to \<open>Owners_1\<close>.
\<close>

theorem resolver_first_match:
  "(parseFilenameToTargetLayer fname = None) =
     (\<forall>i < length ROOM_KEYWORD_INFO.
        \<not> occursAsToken (norm (ROOM_KEYWORD_INFO ! i)) (normalizeToken (stripExtension fname)))
   \<and> (\<forall>r. parseFilenameToTargetLayer fname = Some r \<longrightarrow>
        (\<exists>i < length ROOM_KEYWORD_INFO.
           occursAsToken (norm (ROOM_KEYWORD_INFO ! i)) (normalizeToken (stripExtension fname))
         \<and> (\<forall>j < i. \<not> occursAsToken (norm (ROOM_KEYWORD_INFO ! j))
                         (normalizeToken (stripExtension fname)))
         \<and> (\<exists>idx. r = raw (ROOM_KEYWORD_INFO ! i) @ ''_'' @ idx)))
   \<and> parseFilenameToTargetLayer ''Owners_Bath_1.png'' = Some ''Owners_Bath_1''
   \<and> parseFilenameToTargetLayer ''Owners_Bath_1.png'' \<noteq> Some ''Owners_1''"
proof -
  define n where "n = normalizeToken (stripExtension fname)"
  have n: "list_all normChar n" by (simp add: n_def normalizeToken_chars)
  have test: "keywordTest (norm (ROOM_KEYWORD_INFO ! i)) n
      = occursAsToken (norm (ROOM_KEYWORD_INFO ! i)) n" if "i < length ROOM_KEYWORD_INFO" for i
    using that by (intro keywordTest_iff catalog_norm(2) n) simp
  have a: "(parseFilenameToTargetLayer fname = None) =
     (\<forall>i < length ROOM_KEYWORD_INFO. \<not> occursAsToken (norm (ROOM_KEYWORD_INFO ! i)) n)"
    unfolding parse_None n_def[symmetric] findKeyword_None
    by (auto simp: test all_set_conv_all_nth)
  have b: "\<exists>i < length ROOM_KEYWORD_INFO.
           occursAsToken (norm (ROOM_KEYWORD_INFO ! i)) n
         \<and> (\<forall>j < i. \<not> occursAsToken (norm (ROOM_KEYWORD_INFO ! j)) n)
         \<and> (\<exists>idx. r = raw (ROOM_KEYWORD_INFO ! i) @ ''_'' @ idx)"
    if r: "parseFilenameToTargetLayer fname = Some r" for r
  proof -
    from r obtain e where e: "findKeyword ROOM_KEYWORD_INFO n = Some e"
      using parse_None[of fname] by (auto simp: n_def)
    from findKeyword_Some[OF e] obtain i where i: "i < length ROOM_KEYWORD_INFO"
      "ROOM_KEYWORD_INFO ! i = e" "keywordTest (norm e) n"
      "\<forall>j < i. \<not> keywordTest (norm (ROOM_KEYWORD_INFO ! j)) n" by blast
    have 1: "occursAsToken (norm (ROOM_KEYWORD_INFO ! i)) n" using i test by auto
    have 2: "\<forall>j < i. \<not> occursAsToken (norm (ROOM_KEYWORD_INFO ! j)) n"
      using i test by auto
    have 3: "\<exists>idx. r = raw (ROOM_KEYWORD_INFO ! i) @ ''_'' @ idx"
      using r parse_unfold[of fname e] e i(2) by (auto simp: n_def)
    from i(1) 1 2 3 show ?thesis by blast
  qed
  have c: "parseFilenameToTargetLayer ''Owners_Bath_1.png'' = Some ''Owners_Bath_1''"
    by code_simp
  from a b c show ?thesis unfolding n_def by simp
qed

text \<open>
  An instance: for \<open>Owners_Bath_1.png\<close> some catalog entry occurs as a whole token and the result
  is its raw keyword followed by an index.
\<close>

theorem resolver_first_match_witness:
  "\<exists>i < length ROOM_KEYWORD_INFO.
      occursAsToken (norm (ROOM_KEYWORD_INFO ! i)) (normalizeToken (stripExtension ''Owners_Bath_1.png''))
    \<and> (\<exists>idx. ''Owners_Bath_1'' = raw (ROOM_KEYWORD_INFO ! i) @ ''_'' @ idx)"
proof -
  note t = resolver_first_match[of "''Owners_Bath_1.png''"]
  from t have "parseFilenameToTargetLayer ''Owners_Bath_1.png'' = Some ''Owners_Bath_1''"
    by blast
  with t show ?thesis by blast
qed

text \<open>
  C2 (as amended): the catalog is the list of raw keywords paired with their normalized
  forms, sorted by descending length of the normalized form; entries of equal normalized
  length keep their declaration order. Entries do share normalized lengths.
\<close>

theorem catalog_sorted_stable:
  "sorted_wrt (\<lambda>a b. length (norm a) \<ge> length (norm b)) ROOM_KEYWORD_INFO
   \<and> (\<forall>k. filter (\<lambda>e. length (norm e) = k) ROOM_KEYWORD_INFO
          = filter (\<lambda>e. length (norm e) = k)
              (map (\<lambda>r. \<lparr>raw = r, norm = normalizeToken r\<rparr>) ROOM_KEYWORDS))
   \<and> map raw ROOM_KEYWORD_INFO =
       [''CoveredPatio'', ''Owners_Bath'', ''Kitchenette'', ''Owners_WIC'', ''Kitchen'',
        ''Bedroom'', ''Laundry'', ''Owners'', ''Dining'', ''Living'', ''Family'', ''Powder'',
        ''Garage'', ''Office'', ''Great'', ''Bath2'', ''Bath3'', ''Bath4'', ''Entry'', ''Foyer'',
        ''Study'', ''Suite'', ''Bonus'', ''Media'', ''Patio'', ''Bed2'', ''Bed3'', ''Bed4'',
        ''Bed5'', ''Bath'', ''Loft'', ''Game'', ''Flex'', ''Deck'', ''Nook'', ''WIC'', ''Den'',
        ''Gym'']
   \<and> map (\<lambda>e. length (norm e)) ROOM_KEYWORD_INFO =
       [12, 11, 11, 10, 7, 7, 7, 6, 6, 6, 6, 6, 6, 6, 5, 5, 5, 5, 5, 5, 5, 5, 5, 5, 5,
        4, 4, 4, 4, 4, 4, 4, 4, 4, 4, 3, 3, 3]"
proof -
  let ?key = "\<lambda>e. - int (length (norm e))"
  have mk: "mkInfo = (\<lambda>r. \<lparr>raw = r, norm = normalizeToken r\<rparr>)"
    by (intro ext) (simp add: mkInfo_def)
  have "sorted (map ?key ROOM_KEYWORD_INFO)"
    unfolding catalog_sort_key by (rule sorted_sort_key)
  then have a: "sorted_wrt (\<lambda>a b. length (norm a) \<ge> length (norm b)) ROOM_KEYWORD_INFO"
    by (simp add: sorted_map)
  have b: "filter (\<lambda>e. length (norm e) = k) ROOM_KEYWORD_INFO
          = filter (\<lambda>e. length (norm e) = k) (map mkInfo ROOM_KEYWORDS)" for k
  proof -
    have eq: "(\<lambda>e. length (norm e) = k) = (\<lambda>e. ?key e = - int k)" by auto
    show ?thesis unfolding eq catalog_sort_key by (rule sort_key_stable)
  qed
  have c: "map raw ROOM_KEYWORD_INFO =
       [''CoveredPatio'', ''Owners_Bath'', ''Kitchenette'', ''Owners_WIC'', ''Kitchen'',
        ''Bedroom'', ''Laundry'', ''Owners'', ''Dining'', ''Living'', ''Family'', ''Powder'',
        ''Garage'', ''Office'', ''Great'', ''Bath2'', ''Bath3'', ''Bath4'', ''Entry'', ''Foyer'',
        ''Study'', ''Suite'', ''Bonus'', ''Media'', ''Patio'', ''Bed2'', ''Bed3'', ''Bed4'',
        ''Bed5'', ''Bath'', ''Loft'', ''Game'', ''Flex'', ''Deck'', ''Nook'', ''WIC'', ''Den'',
        ''Gym'']"
    by code_simp
  have d: "map (\<lambda>e. length (norm e)) ROOM_KEYWORD_INFO =
       [12, 11, 11, 10, 7, 7, 7, 6, 6, 6, 6, 6, 6, 6, 5, 5, 5, 5, 5, 5, 5, 5, 5, 5, 5,
        4, 4, 4, 4, 4, 4, 4, 4, 4, 4, 3, 3, 3]"
    by code_simp
  from a b c d show ?thesis unfolding mk by blast
qed

text \<open>
  Two entries of equal normalized length: \<open>Owners_Bath\<close> and \<open>Kitchenette\<close>, at places 1 and
  2 of the catalog, both have a normalized form of 11 characters.
\<close>

theorem catalog_length_collision:
  "raw (ROOM_KEYWORD_INFO ! 1) = ''Owners_Bath''
   \<and> raw (ROOM_KEYWORD_INFO ! 2) = ''Kitchenette''
   \<and> length (norm (ROOM_KEYWORD_INFO ! 1)) = length (norm (ROOM_KEYWORD_INFO ! 2))"
  by code_simp

text \<open>
  C3: when the text after the matched keyword fits the "N of M" pattern (an optional
  underscore, the digits N, an optional underscore, \<open>of\<close>, a digit), the index is the digit
  group N and the rest is discarded; \<open>Kitchen_3of4.png\<close> resolves to \<open>Kitchen_3\<close>.
\<close>

theorem of_pattern_keeps_first_group:
  "(findKeyword ROOM_KEYWORD_INFO (normalizeToken (stripExtension fname)) = Some e
      \<and> afterKeywordOf (norm e) (normalizeToken (stripExtension fname))
           = Some (u @ ds @ v @ ''of'' @ m # rest)
      \<and> (u = [] \<or> u = ''_'') \<and> (v = [] \<or> v = ''_'')
      \<and> ds \<noteq> [] \<and> list_all isDigit ds \<and> isDigit m
    \<longrightarrow> parseFilenameToTargetLayer fname = Some (raw e @ ''_'' @ ds))
   \<and> parseFilenameToTargetLayer ''Kitchen_3of4.png'' = Some ''Kitchen_3''"
proof (intro conjI impI)
  assume h: "findKeyword ROOM_KEYWORD_INFO (normalizeToken (stripExtension fname)) = Some e
      \<and> afterKeywordOf (norm e) (normalizeToken (stripExtension fname))
           = Some (u @ ds @ v @ ''of'' @ m # rest)
      \<and> (u = [] \<or> u = ''_'') \<and> (v = [] \<or> v = ''_'')
      \<and> ds \<noteq> [] \<and> list_all isDigit ds \<and> isDigit m"
  then have "ofMatch (u @ ds @ v @ ''of'' @ m # rest) = Some ds"
    by (intro ofMatch_N_of_M) simp_all
  with h show "parseFilenameToTargetLayer fname = Some (raw e @ ''_'' @ ds)"
    by (simp add: parse_unfold extractIndex_def)
next
  show "parseFilenameToTargetLayer ''Kitchen_3of4.png'' = Some ''Kitchen_3''"
    by code_simp
qed

text \<open>
  An instance: in \<open>Kitchen_12_of34b.png\<close> the text after the keyword is \<open>12_of34b\<close> and the index
  is \<open>12\<close>.
\<close>

theorem of_pattern_keeps_first_group_witness:
  "findKeyword ROOM_KEYWORD_INFO (normalizeToken (stripExtension ''Kitchen_12_of34b.png''))
      = Some \<lparr>raw = ''Kitchen'', norm = ''kitchen''\<rparr>
   \<and> afterKeywordOf ''kitchen'' (normalizeToken (stripExtension ''Kitchen_12_of34b.png''))
      = Some ''12_of34b''
   \<and> parseFilenameToTargetLayer ''Kitchen_12_of34b.png'' = Some ''Kitchen_12''"
proof -
  let ?e = "\<lparr>raw = ''Kitchen'', norm = ''kitchen''\<rparr>"
  let ?n = "normalizeToken (stripExtension ''Kitchen_12_of34b.png'')"
  have 1: "findKeyword ROOM_KEYWORD_INFO ?n = Some ?e" by code_simp
  have 2: "afterKeywordOf ''kitchen'' ?n = Some ''12_of34b''" by code_simp
  then have a2: "afterKeywordOf (norm ?e) ?n = Some ([] @ ''12'' @ ''_'' @ ''of'' @ CHR ''3'' # ''4b'')"
    by simp
  have 3: "list_all isDigit ''12''" "isDigit CHR ''3''" "''12'' \<noteq> []"
    by (simp_all add: isDigit_def)
  have "parseFilenameToTargetLayer ''Kitchen_12_of34b.png'' = Some (raw ?e @ ''_'' @ ''12'')"
    using of_pattern_keeps_first_group[of "''Kitchen_12_of34b.png''" ?e "[]" "''12''" "''_''"
        "CHR ''3''" "''4b''"] 1 a2 3 by blast
  then have "parseFilenameToTargetLayer ''Kitchen_12_of34b.png'' = Some ''Kitchen_12''"
    by simp
  with 1 2 show ?thesis by blast
qed

lemma afterKeywordOf_Some:
  "keywordTest kw n \<Longrightarrow> \<exists>tail. afterKeywordOf kw n = Some tail"
  by (auto simp: keywordTest_def afterKeywordOf_def)

text \<open>
  C4: when the text after the matched keyword does not begin, after an optional underscore,
  with a digit, neither index pattern matches and the index is \<open>1\<close>. In \<open>Bath3_F2.png\<close> the
  keyword match \<open>bath3_\<close> takes the separator, the text after it is \<open>f2\<close>, and the result is
  \<open>Bath3_1\<close>, not \<open>Bath3_2\<close>.
\<close>

theorem digit_not_adjacent_defaults_to_1:
  "(findKeyword ROOM_KEYWORD_INFO (normalizeToken (stripExtension fname)) = Some e
      \<and> afterKeywordOf (norm e) (normalizeToken (stripExtension fname)) = Some tail
      \<and> (optUnderscore tail = [] \<or> \<not> isDigit (hd (optUnderscore tail)))
    \<longrightarrow> ofMatch tail = None \<and> underscoreMatch tail = None
      \<and> parseFilenameToTargetLayer fname = Some (raw e @ ''_1''))
   \<and> afterKeywordOf ''bath3'' (normalizeToken (stripExtension ''Bath3_F2.png'')) = Some ''f2''
   \<and> parseFilenameToTargetLayer ''Bath3_F2.png'' = Some ''Bath3_1''
   \<and> parseFilenameToTargetLayer ''Bath3_F2.png'' \<noteq> Some ''Bath3_2''"
proof -
  have a: "ofMatch tail = None \<and> underscoreMatch tail = None
      \<and> parseFilenameToTargetLayer fname = Some (raw e @ ''_1'')"
    if h: "findKeyword ROOM_KEYWORD_INFO (normalizeToken (stripExtension fname)) = Some e
      \<and> afterKeywordOf (norm e) (normalizeToken (stripExtension fname)) = Some tail
      \<and> (optUnderscore tail = [] \<or> \<not> isDigit (hd (optUnderscore tail)))"
  proof -
    from h have n: "ofMatch tail = None \<and> underscoreMatch tail = None"
      by (intro no_leading_digit) simp
    with h show ?thesis by (simp add: parse_unfold extractIndex_def)
  qed
  have b: "afterKeywordOf ''bath3'' (normalizeToken (stripExtension ''Bath3_F2.png'')) = Some ''f2''"
    by code_simp
  have c: "parseFilenameToTargetLayer ''Bath3_F2.png'' = Some ''Bath3_1''"
    by code_simp
  from a b c show ?thesis by simp
qed

text \<open>
  An instance: \<open>Bath3_F2.png\<close>, where the text after the keyword is \<open>f2\<close>.
\<close>

theorem digit_not_adjacent_defaults_to_1_witness:
  "findKeyword ROOM_KEYWORD_INFO (normalizeToken (stripExtension ''Bath3_F2.png''))
      = Some \<lparr>raw = ''Bath3'', norm = ''bath3''\<rparr>
   \<and> \<not> isDigit (hd (optUnderscore ''f2''))
   \<and> underscoreMatch ''f2'' = None
   \<and> parseFilenameToTargetLayer ''Bath3_F2.png'' = Some ''Bath3_1''"
proof -
  let ?e = "\<lparr>raw = ''Bath3'', norm = ''bath3''\<rparr>"
  let ?n = "normalizeToken (stripExtension ''Bath3_F2.png'')"
  have 1: "findKeyword ROOM_KEYWORD_INFO ?n = Some ?e" by code_simp
  have "afterKeywordOf ''bath3'' ?n = Some ''f2''" by code_simp
  then have 2: "afterKeywordOf (norm ?e) ?n = Some ''f2''" by simp
  have 3: "\<not> isDigit (hd (optUnderscore ''f2''))"
    by (simp add: isDigit_def optUnderscore_def)
  have "underscoreMatch ''f2'' = None
      \<and> parseFilenameToTargetLayer ''Bath3_F2.png'' = Some (raw ?e @ ''_1'')"
    using digit_not_adjacent_defaults_to_1[of "''Bath3_F2.png''" ?e "''f2''"] 1 2 3 by blast
  then have "underscoreMatch ''f2'' = None
      \<and> parseFilenameToTargetLayer ''Bath3_F2.png'' = Some ''Bath3_1''" by simp
  with 1 3 show ?thesis by blast
qed

text \<open>
  C5 (as amended): a match is \<open><RawKeyword>_<index>\<close> where the raw keyword is one of the
  catalog and the index is a non-empty string of decimal digits: the digit group at the start
  of the text after the keyword, copied as it stands, or \<open>1\<close> when neither index pattern
  matches.
\<close>

theorem target_identifier_form:
  "parseFilenameToTargetLayer fname = Some r \<longrightarrow>
     (\<exists>e tail idx.
        findKeyword ROOM_KEYWORD_INFO (normalizeToken (stripExtension fname)) = Some e
      \<and> raw e \<in> set ROOM_KEYWORDS
      \<and> afterKeywordOf (norm e) (normalizeToken (stripExtension fname)) = Some tail
      \<and> r = raw e @ ''_'' @ idx
      \<and> idx \<noteq> [] \<and> list_all isDigit idx
      \<and> idx = (if ofMatch tail = None \<and> underscoreMatch tail = None then ''1''
               else takeWhile isDigit (optUnderscore tail)))"
proof
  define n where "n = normalizeToken (stripExtension fname)"
  assume r: "parseFilenameToTargetLayer fname = Some r"
  then obtain e where e: "findKeyword ROOM_KEYWORD_INFO n = Some e"
    using parse_None[of fname] by (auto simp: n_def)
  have mem: "e \<in> set ROOM_KEYWORD_INFO" using e by (rule findKeyword_mem)
  then have raw: "raw e \<in> set ROOM_KEYWORDS" by (auto simp: catalog_set mkInfo_def)
  obtain tail where tail: "afterKeywordOf (norm e) n = Some tail"
    using afterKeywordOf_Some[OF findKeyword_test[OF e]] by blast
  define idx where "idx = (case extractIndex (Some tail) of None \<Rightarrow> ''1'' | Some i \<Rightarrow> i)"
  have res: "r = raw e @ ''_'' @ idx"
    using r parse_unfold[of fname e] e tail by (simp add: n_def idx_def)
  have form: "idx = (if ofMatch tail = None \<and> underscoreMatch tail = None then ''1''
               else takeWhile isDigit (optUnderscore tail))"
    using ofMatch_Some[of tail] underscoreMatch_Some[of tail]
    by (auto simp: idx_def extractIndex_def split: option.splits)
  have ne: "idx \<noteq> []"
    using ofMatch_Some[of tail] underscoreMatch_Some[of tail]
    by (auto simp: idx_def extractIndex_def split: option.splits)
  have dig: "list_all isDigit idx"
    unfolding form by (simp add: takeWhile_isDigit_digits isDigit_def)
  from e raw tail res ne dig form
  show "\<exists>e tail idx.
        findKeyword ROOM_KEYWORD_INFO (normalizeToken (stripExtension fname)) = Some e
      \<and> raw e \<in> set ROOM_KEYWORDS
      \<and> afterKeywordOf (norm e) (normalizeToken (stripExtension fname)) = Some tail
      \<and> r = raw e @ ''_'' @ idx
      \<and> idx \<noteq> [] \<and> list_all isDigit idx
      \<and> idx = (if ofMatch tail = None \<and> underscoreMatch tail = None then ''1''
               else takeWhile isDigit (optUnderscore tail))"
    unfolding n_def by blast
qed

text \<open>
  An instance: \<open>Kitchen_007.png\<close>.
\<close>

theorem target_identifier_form_witness:
  "\<exists>e tail idx.
        findKeyword ROOM_KEYWORD_INFO (normalizeToken (stripExtension ''Kitchen_007.png'')) = Some e
      \<and> raw e \<in> set ROOM_KEYWORDS
      \<and> afterKeywordOf (norm e) (normalizeToken (stripExtension ''Kitchen_007.png'')) = Some tail
      \<and> ''Kitchen_007'' = raw e @ ''_'' @ idx
      \<and> idx \<noteq> [] \<and> list_all isDigit idx
      \<and> idx = (if ofMatch tail = None \<and> underscoreMatch tail = None then ''1''
               else takeWhile isDigit (optUnderscore tail))"
proof -
  have "parseFilenameToTargetLayer ''Kitchen_007.png'' = Some ''Kitchen_007''"
    by code_simp
  then show ?thesis
    using target_identifier_form[of "''Kitchen_007.png''" "''Kitchen_007''"] by blast
qed

text \<open>
  The digit group is kept as it stands: the index of a match can carry leading zeros and
  can be zero.
\<close>

theorem index_not_positive_or_padded:
  "parseFilenameToTargetLayer ''Kitchen_007.png'' = Some ''Kitchen_007''
   \<and> parseFilenameToTargetLayer ''Kitchen_0.png'' = Some ''Kitchen_0''"
  by code_simp

section \<open>The title deriver: proofs\<close>

subsection \<open>The title deriver reads the first line of the trimmed title\<close>

lemma trim_Nil: "trim [] = []"
  by (simp add: trim_def)

lemma dropWhile_id: "xs \<noteq> [] \<Longrightarrow> \<not> P (hd xs) \<Longrightarrow> dropWhile P xs = xs"
  by (cases xs) auto

lemma mem_dropWhile: "x \<in> set ys \<Longrightarrow> \<not> P x \<Longrightarrow> x \<in> set (dropWhile P ys)"
  by (induction ys) auto

lemma trim_prefix: "\<exists>w. dropWhile isWhiteSpace s = trim s @ w"
proof -
  have "rev (dropWhile isWhiteSpace s)
      = takeWhile isWhiteSpace (rev (dropWhile isWhiteSpace s))
        @ dropWhile isWhiteSpace (rev (dropWhile isWhiteSpace s))"
    by simp
  then have "dropWhile isWhiteSpace s
      = rev (dropWhile isWhiteSpace (rev (dropWhile isWhiteSpace s)))
        @ rev (takeWhile isWhiteSpace (rev (dropWhile isWhiteSpace s)))"
    by (metis rev_append rev_rev_ident)
  then show ?thesis unfolding trim_def by blast
qed

lemma trim_hd:
  assumes "trim s = c # cs"
  shows "\<not> isWhiteSpace c"
proof -
  obtain w where "dropWhile isWhiteSpace s = trim s @ w" using trim_prefix by blast
  with assms have "dropWhile isWhiteSpace s = c # cs @ w" by simp
  then show ?thesis by (metis hd_dropWhile list.sel(1) list.simps(3))
qed

lemma trim_last:
  assumes "trim s \<noteq> []"
  shows "\<not> isWhiteSpace (last (trim s))"
proof -
  let ?d = "dropWhile isWhiteSpace (rev (dropWhile isWhiteSpace s))"
  from assms have ne: "?d \<noteq> []" by (simp add: trim_def)
  then have "\<not> isWhiteSpace (hd ?d)" by (rule hd_dropWhile)
  moreover have "last (trim s) = hd ?d" unfolding trim_def using ne by (simp add: last_rev)
  ultimately show ?thesis by simp
qed

lemma trim_fixed:
  assumes "s = [] \<or> (\<not> isWhiteSpace (hd s) \<and> \<not> isWhiteSpace (last s))"
  shows "trim s = s"
proof (cases s)
  case Nil
  then show ?thesis by (simp add: trim_def)
next
  case (Cons c cs)
  with assms have h: "\<not> isWhiteSpace c" and l: "\<not> isWhiteSpace (last s)" by auto
  have 1: "dropWhile isWhiteSpace s = s" using Cons h by simp
  have "rev s \<noteq> []" using Cons by simp
  moreover have "hd (rev s) = last s" using Cons by (simp add: hd_rev)
  ultimately have 2: "dropWhile isWhiteSpace (rev s) = rev s"
    using l by (intro dropWhile_id) simp_all
  show ?thesis by (simp add: trim_def 1 2)
qed

lemma trim_idem: "trim (trim s) = trim s"
proof (cases "trim s")
  case Nil
  then show ?thesis by (simp add: trim_Nil)
next
  case (Cons c cs)
  then have "\<not> isWhiteSpace (hd (trim s))" using trim_hd by simp
  moreover have "trim s \<noteq> []" using Cons by simp
  then have "\<not> isWhiteSpace (last (trim s))" by (rule trim_last)
  ultimately show ?thesis by (intro trim_fixed) blast
qed

lemma set_trim: "set (trim s) \<subseteq> set s"
proof -
  have "set (trim s) \<subseteq> set (dropWhile isWhiteSpace s)"
    unfolding trim_def by (auto dest: set_dropWhileD)
  then show ?thesis by (auto dest: set_dropWhileD)
qed

lemma trim_nonempty:
  assumes "x \<in> set s" "\<not> isWhiteSpace x"
  shows "trim s \<noteq> []"
proof -
  have "x \<in> set (dropWhile isWhiteSpace s)"
    using assms by (rule mem_dropWhile)
  then have "x \<in> set (rev (dropWhile isWhiteSpace s))" by simp
  then have "x \<in> set (dropWhile isWhiteSpace (rev (dropWhile isWhiteSpace s)))"
    using assms(2) by (rule mem_dropWhile)
  then have "dropWhile isWhiteSpace (rev (dropWhile isWhiteSpace s)) \<noteq> []"
    by (metis empty_iff empty_set)
  then show ?thesis unfolding trim_def by (simp del: dropWhile_eq_Nil_conv)
qed

lemma isWhiteSpace_LF: "isWhiteSpace (CHR 0x0A)"
  by (simp add: isWhiteSpace_def)

lemma firstLineOf_fixed: "CHR 0x0A \<notin> set s \<Longrightarrow> firstLineOf s = s"
  unfolding firstLineOf_def by (induction s) auto

lemma firstLineOf_no_LF: "CHR 0x0A \<notin> set (firstLineOf s)"
  unfolding firstLineOf_def by (auto dest: set_takeWhileD)

lemma firstLine_stable:
  "trim (firstLineOf (trim (trim (firstLineOf (trim t))))) = trim (firstLineOf (trim t))"
proof -
  let ?f = "trim (firstLineOf (trim t))"
  have "CHR 0x0A \<notin> set ?f" using set_trim firstLineOf_no_LF by blast
  then have "firstLineOf ?f = ?f" by (rule firstLineOf_fixed)
  then show ?thesis by (simp add: trim_idem)
qed

lemma firstLine_nonempty:
  assumes "trim t \<noteq> []"
  shows "trim (firstLineOf (trim t)) \<noteq> []"
proof -
  obtain c cs where c: "trim t = c # cs" using assms by (cases "trim t") auto
  then have ws: "\<not> isWhiteSpace c" by (rule trim_hd)
  then have "c \<noteq> CHR 0x0A" using isWhiteSpace_LF by auto
  then have "c \<in> set (firstLineOf (trim t))" by (simp add: c firstLineOf_def)
  then show ?thesis using ws by (rule trim_nonempty)
qed

lemma dropWhile_append_all: "list_all P w \<Longrightarrow> dropWhile P (w @ s) = dropWhile P s"
  by (induction w) simp_all

lemma dropWhile_idem: "dropWhile P (dropWhile P s) = dropWhile P s"
  by (induction s) simp_all

lemma trim_dropWhile: "trim (dropWhile isWhiteSpace s) = trim s"
  by (simp add: trim_def dropWhile_idem)

lemma trimRight_prefix:
  "\<exists>z. s = rev (dropWhile P (rev s)) @ z"
proof -
  have "rev s = takeWhile P (rev s) @ dropWhile P (rev s)" by simp
  then have "s = rev (dropWhile P (rev s)) @ rev (takeWhile P (rev s))"
    by (metis rev_append rev_rev_ident)
  then show ?thesis by blast
qed

lemma takeWhile_until: "x \<notin> set xs \<Longrightarrow> takeWhile (\<lambda>c. c \<noteq> x) (xs @ x # rs) = xs"
  by (induction xs) auto

lemma first_line_not_blank:
  assumes nb: "\<not> list_all isWhiteSpace (firstLineOf t)"
  shows "trim (firstLineOf (trim t)) = trim (firstLineOf t)"
proof -
  define L where "L = firstLineOf t"
  define R where "R = dropWhile (\<lambda>c. c \<noteq> CHR 0x0A) t"
  define L' where "L' = dropWhile isWhiteSpace L"
  have t: "t = L @ R" by (simp add: L_def R_def firstLineOf_def)
  obtain x where x: "x \<in> set L" "\<not> isWhiteSpace x"
    using nb by (auto simp: L_def list_all_iff)
  have noLF: "CHR 0x0A \<notin> set L" unfolding L_def by (rule firstLineOf_no_LF)
  have noLF': "CHR 0x0A \<notin> set L'" using noLF unfolding L'_def by (auto dest: set_dropWhileD)
  have left: "dropWhile isWhiteSpace t = L' @ R"
    unfolding t L'_def using x by (rule dropWhile_append1)
  have trimL: "trim L = rev (dropWhile isWhiteSpace (rev L'))" by (simp add: trim_def L'_def)
  have trimL': "trim L' = trim L" unfolding L'_def by (rule trim_dropWhile)
  show ?thesis
  proof (cases "list_all isWhiteSpace R")
    case True
    then have "list_all isWhiteSpace (rev R)" by (simp add: list_all_iff)
    then have "dropWhile isWhiteSpace (rev R @ rev L') = dropWhile isWhiteSpace (rev L')"
      by (rule dropWhile_append_all)
    then have "rev (dropWhile isWhiteSpace (rev (L' @ R))) = trim L"
      unfolding trimL by simp
    then have "trim t = trim L" unfolding trim_def[of t] left .
    moreover have "CHR 0x0A \<notin> set (trim L)" using set_trim noLF by blast
    then have "firstLineOf (trim L) = trim L" by (rule firstLineOf_fixed)
    ultimately show ?thesis by (simp add: trim_idem L_def)
  next
    case False
    then obtain y where y: "y \<in> set (rev R)" "\<not> isWhiteSpace y"
      by (auto simp: list_all_iff)
    define R' where "R' = rev (dropWhile isWhiteSpace (rev R))"
    have "dropWhile isWhiteSpace (rev R @ rev L') = dropWhile isWhiteSpace (rev R) @ rev L'"
      using y by (rule dropWhile_append1)
    then have "rev (dropWhile isWhiteSpace (rev (L' @ R))) = L' @ R'"
      unfolding R'_def by simp
    then have tt: "trim t = L' @ R'" unfolding trim_def[of t] left .
    have "y \<in> set (dropWhile isWhiteSpace (rev R))" using y by (rule mem_dropWhile)
    then have "dropWhile isWhiteSpace (rev R) \<noteq> []" by (metis empty_iff empty_set)
    then have ne: "R' \<noteq> []" unfolding R'_def by (simp del: dropWhile_eq_Nil_conv)
    obtain z where z: "R = R' @ z" unfolding R'_def using trimRight_prefix by blast
    have "R \<noteq> []" using ne z by auto
    then have "\<not> (hd (dropWhile (\<lambda>c. c \<noteq> CHR 0x0A) t) \<noteq> CHR 0x0A)"
      unfolding R_def by (rule hd_dropWhile)
    then have hdR: "hd R = CHR 0x0A" by (simp add: R_def)
    have "hd (R' @ z) = hd R'" using ne by (rule hd_append2)
    then have "hd R' = CHR 0x0A" using hdR z by simp
    then obtain rs where rs: "R' = CHR 0x0A # rs" using ne by (cases R') auto
    have "firstLineOf (L' @ R') = L'"
      unfolding firstLineOf_def rs using noLF' by (rule takeWhile_until)
    then show ?thesis by (simp add: tt trimL' L_def)
  qed
qed

text \<open>
  C9 (as amended): the title deriver trims the input first and then works on the trimmed first
  line of what is left: for every title \<open>t\<close>, \<open>deriveToken(t)\<close> equals \<open>deriveToken\<close> applied to
  the trimmed first line of the trimmed \<open>t\<close>. When the first line of \<open>t\<close> is not blank, that is
  the trimmed first line of \<open>t\<close> itself.
\<close>

theorem deriveToken_first_line_of_trimmed:
  "deriveRoomTokenFromText t = deriveRoomTokenFromText (trim (firstLineOf (trim t)))
   \<and> (\<not> list_all isWhiteSpace (firstLineOf t) \<longrightarrow>
        deriveRoomTokenFromText t = deriveRoomTokenFromText (trim (firstLineOf t)))"
proof -
  have a: "deriveRoomTokenFromText t = deriveRoomTokenFromText (trim (firstLineOf (trim t)))"
  proof (cases "trim t = []")
    case True
    have a: "deriveRoomTokenFromText t = None"
      using True by (simp add: deriveRoomTokenFromText_def)
    have b: "trim (firstLineOf (trim t)) = []"
      using True by (simp add: firstLineOf_def trim_Nil)
    have c: "deriveRoomTokenFromText [] = None"
      by (simp add: deriveRoomTokenFromText_def trim_Nil)
    show ?thesis by (simp only: a b c)
  next
    case False
    let ?f = "trim (firstLineOf (trim t))"
    have 1: "trim ?f = ?f" by (rule trim_idem)
    have 2: "?f \<noteq> []" using False by (rule firstLine_nonempty)
    have 3: "trim (firstLineOf ?f) = ?f" using firstLine_stable[of t] by (simp add: 1)
    have "deriveRoomTokenFromText ?f =
        (let firstLine = ?f in
           case roomNumberMatch ''bed'' firstLine of
             Some digits \<Rightarrow> Some (''Bed'' @ digits)
           | None \<Rightarrow>
               (case roomNumberMatch ''bath'' firstLine of
                  Some digits \<Rightarrow> Some (''Bath'' @ digits)
                | None \<Rightarrow>
                    if literalTest ''game'' firstLine then Some ''Game''
                    else
                      (case findKeyword ROOM_KEYWORD_INFO (normalizeToken firstLine) of
                         Some info \<Rightarrow> Some (raw info)
                       | None \<Rightarrow>
                           (let fallback = filter isAlnum firstLine in
                            if fallback = [] then None else Some fallback))))"
      unfolding deriveRoomTokenFromText_def[of ?f] 1 Let_def 3 using 2 by simp
    moreover have "deriveRoomTokenFromText t =
        (let firstLine = ?f in
           case roomNumberMatch ''bed'' firstLine of
             Some digits \<Rightarrow> Some (''Bed'' @ digits)
           | None \<Rightarrow>
               (case roomNumberMatch ''bath'' firstLine of
                  Some digits \<Rightarrow> Some (''Bath'' @ digits)
                | None \<Rightarrow>
                    if literalTest ''game'' firstLine then Some ''Game''
                    else
                      (case findKeyword ROOM_KEYWORD_INFO (normalizeToken firstLine) of
                         Some info \<Rightarrow> Some (raw info)
                       | None \<Rightarrow>
                           (let fallback = filter isAlnum firstLine in
                            if fallback = [] then None else Some fallback))))"
      unfolding deriveRoomTokenFromText_def[of t] Let_def using False by simp
    ultimately show ?thesis by simp
  qed
  have b: "deriveRoomTokenFromText t = deriveRoomTokenFromText (trim (firstLineOf t))"
    if "\<not> list_all isWhiteSpace (firstLineOf t)"
    using a first_line_not_blank[OF that] by simp
  from a b show ?thesis by blast
qed

text \<open>
  An instance: a title of two lines whose first line is \<open>Bedroom 2\<close>.
\<close>

theorem deriveToken_first_line_of_trimmed_witness:
  "\<not> list_all isWhiteSpace (firstLineOf (''Bedroom 2'' @ CHR 0x0A # ''more text''))
   \<and> deriveRoomTokenFromText (''Bedroom 2'' @ CHR 0x0A # ''more text'')
       = deriveRoomTokenFromText (trim (firstLineOf (''Bedroom 2'' @ CHR 0x0A # ''more text'')))
   \<and> deriveRoomTokenFromText (''Bedroom 2'' @ CHR 0x0A # ''more text'') = Some ''Bed2''"
proof -
  let ?t = "''Bedroom 2'' @ CHR 0x0A # ''more text''"
  have 1: "\<not> list_all isWhiteSpace (firstLineOf ?t)" by code_simp
  have 2: "deriveRoomTokenFromText ?t = Some ''Bed2''" by code_simp
  have "deriveRoomTokenFromText ?t = deriveRoomTokenFromText (trim (firstLineOf ?t))"
    using deriveToken_first_line_of_trimmed[of ?t] 1 by blast
  with 1 2 show ?thesis by blast
qed

text \<open>
  A title that starts with a line feed: the token comes from the line after it, while the
  trimmed first line of the title is empty and gives no token.
\<close>

theorem deriveToken_leading_blank_line:
  "deriveRoomTokenFromText (CHR 0x0A # ''Kitchen'') = Some ''Kitchen''
   \<and> trim (firstLineOf (CHR 0x0A # ''Kitchen'')) = []
   \<and> deriveRoomTokenFromText (trim (firstLineOf (CHR 0x0A # ''Kitchen''))) = None"
  by code_simp

section \<open>The block auto-seeder: proofs\<close>

subsection \<open>Sorting keeps the elements\<close>

lemma length_insertBy: "length (insertBy cmp a xs) = Suc (length xs)"
  by (induction xs) simp_all

lemma length_sortBy: "length (sortBy cmp xs) = length xs"
  by (induction xs) (simp_all add: sortBy_def length_insertBy)

lemma set_insertBy: "set (insertBy cmp a xs) = insert a (set xs)"
  by (induction xs) auto

lemma set_sortBy: "set (sortBy cmp xs) = set xs"
  by (induction xs) (simp_all add: sortBy_def set_insertBy)

subsection \<open>The loops over the image nodes\<close>

lemma ownersLoop_eq:
  "ownersLoop i imgs (b, r) =
     (renameAll ownersName i imgs b, r\<lparr>renamedLayers := renamedLayers r + length imgs\<rparr>)"
  by (induction imgs arbitrary: i b r) (simp_all add: ownersName_def)

lemma defaultLoop_eq:
  "defaultLoop token i imgs (b, r) =
     (renameAll (\<lambda>k. token @ ''_'' @ showNat k) i imgs b,
      r\<lparr>renamedLayers := renamedLayers r + length imgs\<rparr>)"
  by (induction imgs arbitrary: i b r) simp_all

subsection \<open>What one block adds to the result\<close>

lemma addResult_noResult: "addResult r noResult = r"
  by (simp add: addResult_def noResult_def)

lemma addResult_assoc: "addResult (addResult r a) b = addResult r (addResult a b)"
  by (simp add: addResult_def)

lemma pushIssue_noResult: "pushIssue m r = addResult r (pushIssue m noResult)"
  by (simp add: addResult_def pushIssue_def noResult_def)

lemma seedBlock_shift:
  "seedBlock b r = (fst (seedBlock b noResult), addResult r (snd (seedBlock b noResult)))"
  unfolding seedBlock_def Let_def ownersLoop_eq defaultLoop_eq
  by (simp add: pushIssue_def addResult_def noResult_def split: option.splits)

lemma seedBlocks_shift:
  "seedBlocks cs r = (fst (seedBlocks cs noResult), addResult r (snd (seedBlocks cs noResult)))"
proof (induction cs arbitrary: r)
  case Nil
  show ?case by (simp add: addResult_noResult)
next
  case (Cons c cs)
  show ?case
  proof (cases "hasChildren c")
    case False
    then show ?thesis using Cons[of r] by (simp split: prod.splits)
  next
    case True
    obtain c' d where b: "seedBlock c noResult = (c', d)" by (cases "seedBlock c noResult")
    then have br: "seedBlock c r = (c', addResult r d)" using seedBlock_shift[of c r] by simp
    obtain cs' e where s: "seedBlocks cs noResult = (cs', e)" by (cases "seedBlocks cs noResult")
    have 1: "seedBlocks cs (addResult r d) = (cs', addResult (addResult r d) e)"
      using Cons[of "addResult r d"] s by simp
    have 2: "seedBlocks cs d = (cs', addResult d e)"
      using Cons[of d] s by simp
    show ?thesis
      using True b br 1 2 by (simp add: addResult_assoc)
  qed
qed

lemma seedBlocks_Cons:
  "seedBlocks (c # cs) r =
     (if hasChildren c
      then (fst (seedBlock c r) # fst (seedBlocks cs (snd (seedBlock c r))),
            snd (seedBlocks cs (snd (seedBlock c r))))
      else (c # fst (seedBlocks cs r), snd (seedBlocks cs r)))"
  by (simp split: prod.splits)

lemma length_seedBlocks: "length (fst (seedBlocks cs r)) = length cs"
  by (induction cs arbitrary: r) (simp_all add: seedBlocks_Cons del: seedBlocks.simps(2))

lemma seedBlocks_append:
  "seedBlocks (xs @ ys) r =
     (fst (seedBlocks xs r) @ fst (seedBlocks ys (snd (seedBlocks xs r))),
      snd (seedBlocks ys (snd (seedBlocks xs r))))"
  by (induction xs arbitrary: r) (simp_all add: seedBlocks_Cons del: seedBlocks.simps(2))

lemma seedBlock_counts:
  "renamedLayers (snd (seedBlock b r)) =
     renamedLayers r + (if reachesRenaming b then length (findAll isImageLayer b) else 0)"
  "processedBlocks (snd (seedBlock b r)) =
     processedBlocks r + (if reachesRenaming b then 1 else 0)"
  unfolding seedBlock_def Let_def ownersLoop_eq defaultLoop_eq reachesRenaming_def titleOf_def
  by (auto simp: pushIssue_def length_sortBy split: option.splits)

lemma seedBlocks_counts:
  "renamedLayers (snd (seedBlocks cs r)) =
     renamedLayers r
     + sum_list (map (\<lambda>b. length (findAll isImageLayer b))
         (filter reachesRenaming (filter hasChildren cs)))"
  "processedBlocks (snd (seedBlocks cs r)) =
     processedBlocks r + length (filter reachesRenaming (filter hasChildren cs))"
proof (induction cs arbitrary: r)
  case Nil
  { case 1 show ?case by simp }
  { case 2 show ?case by simp }
next
  case (Cons c cs)
  { case 1
    show ?case
      using Cons(1)[of "snd (seedBlock c r)"] Cons(1)[of r] seedBlock_counts(1)[of c r]
      by (simp add: seedBlocks_Cons del: seedBlocks.simps(2)) }
  { case 2
    show ?case
      using Cons(2)[of "snd (seedBlock c r)"] Cons(2)[of r] seedBlock_counts(2)[of c r]
      by (simp add: seedBlocks_Cons del: seedBlocks.simps(2)) }
qed

lemma autoSeed_unfold:
  "filter hasChildren (children c) \<noteq> [] \<Longrightarrow>
   autoSeedRoomNames c =
     (Parent (props c) (fst (seedBlocks (children c) noResult)),
      snd (seedBlocks (children c) noResult))"
  by (simp add: autoSeedRoomNames_def noResult_def split: prod.splits)

lemma autoSeed_no_blocks:
  "filter hasChildren (children c) = [] \<Longrightarrow>
   renamedLayers (snd (autoSeedRoomNames c)) = 0
   \<and> processedBlocks (snd (autoSeedRoomNames c)) = 0"
  by (simp add: autoSeedRoomNames_def)

lemma sum_list_at_least_length:
  "list_all (\<lambda>b. 1 \<le> f b) xs \<Longrightarrow> length xs \<le> sum_list (map f xs)"
  by (induction xs) auto

lemma reachesRenaming_has_images:
  "reachesRenaming b \<Longrightarrow> 1 \<le> length (findAll isImageLayer b)"
  by (cases "findAll isImageLayer b")
    (auto simp: reachesRenaming_def split: option.splits)

text \<open>
  C10: the result of the auto-seeder has \<open>renamedLayers \<ge> processedBlocks\<close>: every block
  counted in \<open>processedBlocks\<close> has at least one image node, \<open>renamedLayers\<close> is the total number
  of image nodes of the processed blocks, and \<open>processedBlocks = 0\<close> implies
  \<open>renamedLayers = 0\<close>.
\<close>

theorem renamed_at_least_processed:
  "processedBlocks (snd (autoSeedRoomNames c))
     = length (filter reachesRenaming (filter hasChildren (children c)))
   \<and> renamedLayers (snd (autoSeedRoomNames c))
     = sum_list (map (\<lambda>b. length (findAll isImageLayer b))
         (filter reachesRenaming (filter hasChildren (children c))))
   \<and> list_all (\<lambda>b. 1 \<le> length (findAll isImageLayer b))
        (filter reachesRenaming (filter hasChildren (children c)))
   \<and> processedBlocks (snd (autoSeedRoomNames c)) \<le> renamedLayers (snd (autoSeedRoomNames c))
   \<and> (processedBlocks (snd (autoSeedRoomNames c)) = 0
        \<longrightarrow> renamedLayers (snd (autoSeedRoomNames c)) = 0)"
proof -
  let ?bs = "filter reachesRenaming (filter hasChildren (children c))"
  let ?res = "snd (autoSeedRoomNames c)"
  have p: "processedBlocks ?res = length ?bs"
  proof (cases "filter hasChildren (children c) = []")
    case True
    then show ?thesis using autoSeed_no_blocks[of c] by simp
  next
    case False
    then show ?thesis
      using seedBlocks_counts(2)[of "children c" noResult]
      by (simp add: autoSeed_unfold noResult_def)
  qed
  have r: "renamedLayers ?res = sum_list (map (\<lambda>b. length (findAll isImageLayer b)) ?bs)"
  proof (cases "filter hasChildren (children c) = []")
    case True
    then show ?thesis using autoSeed_no_blocks[of c] by simp
  next
    case False
    then show ?thesis
      using seedBlocks_counts(1)[of "children c" noResult]
      by (simp add: autoSeed_unfold noResult_def)
  qed
  have a: "list_all (\<lambda>b. 1 \<le> length (findAll isImageLayer b)) ?bs"
    using reachesRenaming_has_images by (auto simp: list_all_iff)
  have le: "processedBlocks ?res \<le> renamedLayers ?res"
    unfolding p r using a by (rule sum_list_at_least_length)
  have z: "renamedLayers ?res = 0" if "processedBlocks ?res = 0"
  proof -
    from that p have "?bs = []" by simp
    with r show ?thesis by simp
  qed
  from p r a le z show ?thesis by blast
qed

text \<open>
  Two instances: a container with an Owners Suite block of two image nodes and a block with
  no derivable token, and a container with the latter block only.
\<close>

theorem renamed_at_least_processed_witness:
  "processedBlocks (snd (autoSeedRoomNames
      (Parent (exampleProps FRAME ''Page'' [] 0 0) [ownersBlock2, untitledBlock]))) = 1
   \<and> renamedLayers (snd (autoSeedRoomNames
      (Parent (exampleProps FRAME ''Page'' [] 0 0) [ownersBlock2, untitledBlock]))) = 2
   \<and> processedBlocks (snd (autoSeedRoomNames
      (Parent (exampleProps FRAME ''Page'' [] 0 0) [untitledBlock]))) = 0
   \<and> renamedLayers (snd (autoSeedRoomNames
      (Parent (exampleProps FRAME ''Page'' [] 0 0) [untitledBlock]))) = 0"
proof -
  let ?c1 = "Parent (exampleProps FRAME ''Page'' [] 0 0) [ownersBlock2, untitledBlock]"
  let ?c2 = "Parent (exampleProps FRAME ''Page'' [] 0 0) [untitledBlock]"
  have 1: "filter reachesRenaming (filter hasChildren (children ?c1)) = [ownersBlock2]"
    by code_simp
  have 2: "length (findAll isImageLayer ownersBlock2) = 2"
    by code_simp
  have 3: "processedBlocks (snd (autoSeedRoomNames ?c2)) = 0"
    by code_simp
  have a: "processedBlocks (snd (autoSeedRoomNames ?c1)) = 1
      \<and> renamedLayers (snd (autoSeedRoomNames ?c1)) = 2"
    using renamed_at_least_processed[of ?c1] unfolding 1 by (simp add: 2)
  have b: "renamedLayers (snd (autoSeedRoomNames ?c2)) = 0"
    using renamed_at_least_processed[of ?c2] 3 by blast
  from a b 3 show ?thesis by blast
qed

subsection \<open>A block whose title gives no token\<close>

lemma seedBlock_tokenFails:
  assumes "tokenFails b"
  shows "\<exists>title. titleOf b = Some title
     \<and> seedBlock b r =
         (b, r\<lparr>issues := issues r @
           [''Block '' @ quote @ name (props b) @ quote
            @ '': could not derive room token from '' @ quote @ title @ quote @ ''.'']\<rparr>)"
  using assms
  unfolding tokenFails_def titleOf_def seedBlock_def Let_def
  by (auto simp: pushIssue_def split: option.splits)

lemma seedBlocks_skip:
  assumes "hasChildren b" "seedBlock b noResult = (b, pushIssue m noResult)"
  shows "fst (seedBlocks (pre @ b # post) r)
       = take (length pre) (fst (seedBlocks (pre @ post) r))
         @ b # drop (length pre) (fst (seedBlocks (pre @ post) r))"
    and "renamedLayers (snd (seedBlocks (pre @ b # post) r))
       = renamedLayers (snd (seedBlocks (pre @ post) r))"
    and "processedBlocks (snd (seedBlocks (pre @ b # post) r))
       = processedBlocks (snd (seedBlocks (pre @ post) r))"
    and "\<exists>is1 is2. issues (snd (seedBlocks (pre @ post) r)) = is1 @ is2
       \<and> issues (snd (seedBlocks (pre @ b # post) r)) = is1 @ [m] @ is2"
proof -
  define r1 where "r1 = snd (seedBlocks pre r)"
  define d where "d = snd (seedBlocks post noResult)"
  define post' where "post' = fst (seedBlocks post noResult)"
  have sb: "seedBlock b r1 = (b, pushIssue m r1)"
    using seedBlock_shift[of b r1] assms(2) pushIssue_noResult[of m r1] by simp
  have p1: "seedBlocks post r1 = (post', addResult r1 d)"
    using seedBlocks_shift[of post r1] by (simp add: d_def post'_def)
  have p2: "seedBlocks post (pushIssue m r1) = (post', addResult (pushIssue m r1) d)"
    using seedBlocks_shift[of post "pushIssue m r1"] by (simp add: d_def post'_def)
  have without: "seedBlocks (pre @ post) r = (fst (seedBlocks pre r) @ post', addResult r1 d)"
    unfolding seedBlocks_append r1_def[symmetric] p1 by simp
  have "seedBlocks (b # post) r1 = (b # post', addResult (pushIssue m r1) d)"
    using assms(1) sb p2 by (simp add: seedBlocks_Cons del: seedBlocks.simps(2))
  then have "with": "seedBlocks (pre @ b # post) r
      = (fst (seedBlocks pre r) @ b # post', addResult (pushIssue m r1) d)"
    unfolding seedBlocks_append[of pre "b # post"] r1_def[symmetric] by simp
  show "fst (seedBlocks (pre @ b # post) r)
       = take (length pre) (fst (seedBlocks (pre @ post) r))
         @ b # drop (length pre) (fst (seedBlocks (pre @ post) r))"
    unfolding without "with" by (simp add: length_seedBlocks)
  show "renamedLayers (snd (seedBlocks (pre @ b # post) r))
       = renamedLayers (snd (seedBlocks (pre @ post) r))"
    unfolding without "with" by (simp add: addResult_def pushIssue_def)
  show "processedBlocks (snd (seedBlocks (pre @ b # post) r))
       = processedBlocks (snd (seedBlocks (pre @ post) r))"
    unfolding without "with" by (simp add: addResult_def pushIssue_def)
  have "issues (snd (seedBlocks (pre @ post) r)) = issues r1 @ issues d
       \<and> issues (snd (seedBlocks (pre @ b # post) r)) = issues r1 @ [m] @ issues d"
    unfolding without "with" by (simp add: addResult_def pushIssue_def)
  then show "\<exists>is1 is2. issues (snd (seedBlocks (pre @ post) r)) = is1 @ is2
       \<and> issues (snd (seedBlocks (pre @ b # post) r)) = is1 @ [m] @ is2"
    by blast
qed

text \<open>
  C8: in the default branch, a block whose title yields no token adds exactly one issue and
  no renamed layer, is itself left as it was, and leaves the other blocks and what they add to
  the result as they are without it.
\<close>

theorem underivable_title_skips_block:
  "tokenFails b \<longrightarrow>
     ((\<exists>title. titleOf b = Some title
         \<and> seedBlock b r =
             (b, r\<lparr>issues := issues r @
               [''Block '' @ quote @ name (props b) @ quote
                @ '': could not derive room token from '' @ quote @ title @ quote @ ''.'']\<rparr>))
      \<and> (hasChildren b \<and> filter hasChildren (pre @ post) \<noteq> [] \<longrightarrow>
           (let withBlock = autoSeedRoomNames (Parent p (pre @ b # post));
                without = autoSeedRoomNames (Parent p (pre @ post))
            in children (fst withBlock)
                 = take (length pre) (children (fst without))
                   @ b # drop (length pre) (children (fst without))
               \<and> renamedLayers (snd withBlock) = renamedLayers (snd without)
               \<and> processedBlocks (snd withBlock) = processedBlocks (snd without)
               \<and> (\<exists>is1 is2 m. issues (snd without) = is1 @ is2
                     \<and> issues (snd withBlock) = is1 @ [m] @ is2))))"
proof (intro impI conjI)
  assume tf: "tokenFails b"
  show "\<exists>title. titleOf b = Some title
         \<and> seedBlock b r =
             (b, r\<lparr>issues := issues r @
               [''Block '' @ quote @ name (props b) @ quote
                @ '': could not derive room token from '' @ quote @ title @ quote @ ''.'']\<rparr>)"
    using tf by (rule seedBlock_tokenFails)
  assume h: "hasChildren b \<and> filter hasChildren (pre @ post) \<noteq> []"
  obtain title where "seedBlock b noResult =
      (b, noResult\<lparr>issues := issues noResult @
               [''Block '' @ quote @ name (props b) @ quote
                @ '': could not derive room token from '' @ quote @ title @ quote @ ''.'']\<rparr>)"
    using seedBlock_tokenFails[OF tf, of noResult] by blast
  then obtain m where m: "seedBlock b noResult = (b, pushIssue m noResult)"
    by (simp add: pushIssue_def)
  have w: "autoSeedRoomNames (Parent p (pre @ b # post)) =
     (Parent p (fst (seedBlocks (pre @ b # post) noResult)),
      snd (seedBlocks (pre @ b # post) noResult))"
    using h autoSeed_unfold[of "Parent p (pre @ b # post)"] by simp
  have wo: "autoSeedRoomNames (Parent p (pre @ post)) =
     (Parent p (fst (seedBlocks (pre @ post) noResult)),
      snd (seedBlocks (pre @ post) noResult))"
    using h autoSeed_unfold[of "Parent p (pre @ post)"] by simp
  from h have hc: "hasChildren b" by simp
  note sk = seedBlocks_skip[OF hc m, of pre post noResult]
  from sk(4) have "\<exists>is1 is2 m. issues (snd (seedBlocks (pre @ post) noResult)) = is1 @ is2
       \<and> issues (snd (seedBlocks (pre @ b # post) noResult)) = is1 @ [m] @ is2"
    by blast
  with sk(1,2,3)
  show "let withBlock = autoSeedRoomNames (Parent p (pre @ b # post));
                without = autoSeedRoomNames (Parent p (pre @ post))
            in children (fst withBlock)
                 = take (length pre) (children (fst without))
                   @ b # drop (length pre) (children (fst without))
               \<and> renamedLayers (snd withBlock) = renamedLayers (snd without)
               \<and> processedBlocks (snd withBlock) = processedBlocks (snd without)
               \<and> (\<exists>is1 is2 m. issues (snd without) = is1 @ is2
                     \<and> issues (snd withBlock) = is1 @ [m] @ is2)"
    unfolding Let_def w wo by simp
qed

text \<open>
  An instance: the block titled \<open>???\<close> after an Owners Suite block.
\<close>

theorem underivable_title_skips_block_witness:
  "tokenFails untitledBlock
   \<and> seedBlock untitledBlock noResult =
       (untitledBlock,
        noResult\<lparr>issues := issues noResult @
          [''Block '' @ quote @ ''Block B'' @ quote
           @ '': could not derive room token from '' @ quote @ ''???'' @ quote @ ''.'']\<rparr>)
   \<and> children (fst (autoSeedRoomNames
        (Parent (exampleProps FRAME ''Page'' [] 0 0) [ownersBlock2, untitledBlock])))
     = children (fst (autoSeedRoomNames
        (Parent (exampleProps FRAME ''Page'' [] 0 0) [ownersBlock2]))) @ [untitledBlock]
   \<and> renamedLayers (snd (autoSeedRoomNames
        (Parent (exampleProps FRAME ''Page'' [] 0 0) [ownersBlock2, untitledBlock])))
     = renamedLayers (snd (autoSeedRoomNames
        (Parent (exampleProps FRAME ''Page'' [] 0 0) [ownersBlock2])))"
proof -
  let ?p = "exampleProps FRAME ''Page'' [] 0 0"
  have tf: "tokenFails untitledBlock" by code_simp
  have t: "titleOf untitledBlock = Some ''???''" by code_simp
  have n: "name (props untitledBlock) = ''Block B''" by code_simp
  have hc: "hasChildren untitledBlock \<and> filter hasChildren ([ownersBlock2] @ []) \<noteq> []"
    by code_simp
  have len: "length (children (fst (autoSeedRoomNames (Parent ?p [ownersBlock2])))) = 1"
    by code_simp
  note th = underivable_title_skips_block[of untitledBlock noResult "[ownersBlock2]" "[]" ?p]
  from th tf t n have a: "seedBlock untitledBlock noResult =
       (untitledBlock,
        noResult\<lparr>issues := issues noResult @
          [''Block '' @ quote @ ''Block B'' @ quote
           @ '': could not derive room token from '' @ quote @ ''???'' @ quote @ ''.'']\<rparr>)"
    by auto
  from th tf hc have b: "children (fst (autoSeedRoomNames (Parent ?p ([ownersBlock2] @ untitledBlock # []))))
         = take (length [ownersBlock2]) (children (fst (autoSeedRoomNames (Parent ?p ([ownersBlock2] @ [])))))
           @ untitledBlock # drop (length [ownersBlock2]) (children (fst (autoSeedRoomNames (Parent ?p ([ownersBlock2] @ [])))))
       \<and> renamedLayers (snd (autoSeedRoomNames (Parent ?p ([ownersBlock2] @ untitledBlock # []))))
         = renamedLayers (snd (autoSeedRoomNames (Parent ?p ([ownersBlock2] @ []))))"
    unfolding Let_def by blast
  from b len have c: "children (fst (autoSeedRoomNames (Parent ?p [ownersBlock2, untitledBlock])))
     = children (fst (autoSeedRoomNames (Parent ?p [ownersBlock2]))) @ [untitledBlock]
   \<and> renamedLayers (snd (autoSeedRoomNames (Parent ?p [ownersBlock2, untitledBlock])))
     = renamedLayers (snd (autoSeedRoomNames (Parent ?p [ownersBlock2])))"
    by simp
  from tf a c show ?thesis by blast
qed

subsection \<open>Assignments through references\<close>

lemma propsAt_updateAt:
  "propsAt (updateAt f q b) q' = (if q' = q then map_option f (propsAt b q) else propsAt b q')"
proof (induction f q b arbitrary: q' rule: updateAt.induct)
  case (1 f p)
  show ?case by (cases q') simp_all
next
  case (2 f p cs)
  show ?case by (cases q') simp_all
next
  case (3 f i q p)
  show ?case by (cases q') simp_all
next
  case (4 f i q p cs)
  show ?case
  proof (cases q')
    case Nil
    then show ?thesis by simp
  next
    case (Cons j q'')
    show ?thesis
    proof (cases "i < length cs")
      case False
      then show ?thesis using Cons by auto
    next
      case True
      show ?thesis
      proof (cases "j = i")
        case True
        with \<open>i < length cs\<close> Cons 4[OF \<open>i < length cs\<close>, of q''] show ?thesis by simp
      next
        case False
        with \<open>i < length cs\<close> Cons show ?thesis by simp
      qed
    qed
  qed
qed

lemma renameAll_other:
  "q \<notin> fst ` set imgs \<Longrightarrow> propsAt (renameAll nameOf i imgs b) q = propsAt b q"
  by (induction imgs arbitrary: i b) (auto simp: propsAt_updateAt)

lemma renameAll_propsAt:
  "distinct (map fst imgs) \<Longrightarrow> k < length imgs \<Longrightarrow>
   propsAt (renameAll nameOf i imgs b) (fst (imgs ! k))
     = map_option (seedImage (nameOf (i + k))) (propsAt b (fst (imgs ! k)))"
proof (induction imgs arbitrary: i b k)
  case Nil
  then show ?case by simp
next
  case (Cons img rest)
  show ?case
  proof (cases k)
    case 0
    have "fst img \<notin> fst ` set rest" using Cons.prems(1) by auto
    then show ?thesis using 0 by (simp add: renameAll_other propsAt_updateAt)
  next
    case (Suc k')
    have k': "k' < length rest" using Cons.prems(2) Suc by simp
    have d: "distinct (map fst rest)" using Cons.prems(1) by simp
    have a: "fst img \<notin> fst ` set rest" using Cons.prems(1) by auto
    have "rest ! k' \<in> set rest" using k' by (rule nth_mem)
    then have "fst (rest ! k') \<in> fst ` set rest" by (rule imageI)
    with a have ne: "fst (rest ! k') \<noteq> fst img" by metis
    show ?thesis
      using Cons.IH[OF d k', of "i + 1" "updateAt (seedImage (nameOf i)) (fst img) b"] Suc ne
      by (simp add: propsAt_updateAt)
  qed
qed

subsection \<open>References to descendants\<close>

lemma descendants_propsAt_aux:
  "(\<forall>q n. (q, n) \<in> set (descendants b) \<longrightarrow> q \<noteq> [] \<and> propsAt b q = Some (props n))"
  "(\<forall>q n. (q, n) \<in> set (descendantsFrom i cs) \<longrightarrow>
      (\<exists>j q'. q = (i + j) # q' \<and> j < length cs \<and> propsAt (cs ! j) q' = Some (props n)))"
proof (induction b and i cs rule: descendants_descendantsFrom.induct)
  case (1 p)
  show ?case by simp
next
  case (2 p cs)
  show ?case
  proof (intro allI impI)
    fix q n assume "(q, n) \<in> set (descendants (Parent p cs))"
    then have "(q, n) \<in> set (descendantsFrom 0 cs)" by simp
    with 2 obtain j q' where "q = (0 + j) # q'" "j < length cs" "propsAt (cs ! j) q' = Some (props n)"
      by blast
    then show "q \<noteq> [] \<and> propsAt (Parent p cs) q = Some (props n)" by simp
  qed
next
  case (3 i)
  show ?case by simp
next
  case (4 i c cs)
  show ?case
  proof (intro allI impI)
    fix q n assume "(q, n) \<in> set (descendantsFrom i (c # cs))"
    then consider (a) "q = [i]" "n = c"
      | (b) q0 where "q = i # q0" "(q0, n) \<in> set (descendants c)"
      | (c) "(q, n) \<in> set (descendantsFrom (Suc i) cs)" by auto
    then show "\<exists>j q'. q = (i + j) # q' \<and> j < length (c # cs)
        \<and> propsAt ((c # cs) ! j) q' = Some (props n)"
    proof cases
      case a
      then show ?thesis by (intro exI[of _ 0] exI[of _ "[]"]) simp
    next
      case b
      then have "propsAt c q0 = Some (props n)" using 4(1) by blast
      with b show ?thesis by (intro exI[of _ 0] exI[of _ q0]) simp
    next
      case c
      then obtain j q' where "q = (Suc i + j) # q'" "j < length cs"
          "propsAt (cs ! j) q' = Some (props n)" using 4(2) by blast
      then show ?thesis by (intro exI[of _ "Suc j"] exI[of _ q']) simp
    qed
  qed
qed

lemma descendants_propsAt:
  "(q, n) \<in> set (descendants b) \<Longrightarrow> propsAt b q = Some (props n)"
  using descendants_propsAt_aux(1) by blast

lemma descendants_distinct_aux:
  "distinct (map fst (descendants b))"
  "distinct (map fst (descendantsFrom i cs))"
proof (induction b and i cs rule: descendants_descendantsFrom.induct)
  case (1 p)
  show ?case by simp
next
  case (2 p cs)
  then show ?case by simp
next
  case (3 i)
  show ?case by simp
next
  case (4 i c cs)
  let ?inner = "map (\<lambda>(q, n). (i # q, n)) (descendants c)"
  have m: "map fst ?inner = map ((#) i) (map fst (descendants c))"
    by (induction "descendants c") (auto simp: case_prod_beta)
  have inj: "distinct (map ((#) i) xs)" if "distinct xs" for xs :: "nat list list"
    using that by (simp add: distinct_map inj_on_def)
  have d1: "distinct (map fst ?inner)"
    unfolding m using 4(1) by (rule inj)
  have "\<And>q n. (q, n) \<in> set (descendants c) \<Longrightarrow> q \<noteq> []"
    using descendants_propsAt_aux(1)[of c] by blast
  then have "[] \<notin> set (map fst (descendants c))" by fastforce
  then have n1: "[i] \<notin> set (map fst ?inner)"
    unfolding m by auto
  have far: "\<And>q. q \<in> set (map fst (descendantsFrom (Suc i) cs)) \<Longrightarrow> hd q > i \<and> q \<noteq> []"
    using descendants_propsAt_aux(2)[of "Suc i" cs] by fastforce
  have n2: "[i] \<notin> set (map fst (descendantsFrom (Suc i) cs))"
    using far by fastforce
  have n3: "set (map fst ?inner) \<inter> set (map fst (descendantsFrom (Suc i) cs)) = {}"
    unfolding m using far by fastforce
  show ?case using d1 n1 n2 n3 4(2) by simp
qed

lemma distinct_map_insertBy:
  "distinct (map f (insertBy cmp a xs)) = distinct (map f (a # xs))"
  by (induction xs) (auto simp: set_insertBy)

lemma distinct_map_sortBy: "distinct (map f (sortBy cmp xs)) = distinct (map f xs)"
proof (induction xs)
  case Nil
  show ?case by (simp add: sortBy_def)
next
  case (Cons a xs)
  have "sortBy cmp (a # xs) = insertBy cmp a (sortBy cmp xs)" by (simp add: sortBy_def)
  then show ?case using Cons by (simp add: distinct_map_insertBy set_sortBy)
qed

lemma sorted_insertBy:
  assumes trans: "\<And>a b c. cmp a b \<le> 0 \<Longrightarrow> cmp b c \<le> 0 \<Longrightarrow> cmp a c \<le> 0"
    and total: "\<And>a b. cmp a b \<le> 0 \<or> cmp b a \<le> 0"
  shows "sorted_wrt (\<lambda>a b. cmp a b \<le> 0) xs \<Longrightarrow> sorted_wrt (\<lambda>a b. cmp a b \<le> 0) (insertBy cmp a xs)"
proof (induction xs)
  case Nil
  show ?case by simp
next
  case (Cons b bs)
  show ?case
  proof (cases "cmp a b \<le> 0")
    case True
    then have "\<forall>x \<in> set bs. cmp a x \<le> 0" using Cons.prems trans by auto
    with True Cons.prems show ?thesis by simp
  next
    case False
    then have "cmp b a \<le> 0" using total by blast
    with False Cons show ?thesis by (auto simp: set_insertBy)
  qed
qed

lemma sorted_sortBy:
  assumes trans: "\<And>a b c. cmp a b \<le> 0 \<Longrightarrow> cmp b c \<le> 0 \<Longrightarrow> cmp a c \<le> 0"
    and total: "\<And>a b. cmp a b \<le> 0 \<or> cmp b a \<le> 0"
  shows "sorted_wrt (\<lambda>a b. cmp a b \<le> 0) (sortBy cmp xs)"
proof (induction xs)
  case Nil
  show ?case by (simp add: sortBy_def)
next
  case (Cons a xs)
  have "sortBy cmp (a # xs) = insertBy cmp a (sortBy cmp xs)" by (simp add: sortBy_def)
  then show ?case using sorted_insertBy[OF trans total Cons] by simp
qed

lemma byVisualPosition_le:
  "(byVisualPosition a b \<le> 0) =
     (pos_y (props (snd a)) < pos_y (props (snd b))
      \<or> (pos_y (props (snd a)) = pos_y (props (snd b))
          \<and> pos_x (props (snd a)) \<le> pos_x (props (snd b))))"
  by (auto simp: byVisualPosition_def)

lemma sorted_byVisualPosition:
  "sorted_wrt (\<lambda>a b. byVisualPosition a b \<le> 0) (sortBy byVisualPosition xs)"
  by (rule sorted_sortBy) (auto simp: byVisualPosition_le)

subsection \<open>The Owners Suite branch\<close>

lemma isOwnersSuiteTitle_Nil: "\<not> isOwnersSuiteTitle []"
  by (simp add: isOwnersSuiteTitle_def toLowerCase_def)

lemma seedBlock_owners:
  assumes "titleOf block = Some title" "isOwnersSuiteTitle title"
    "findAll isImageLayer block \<noteq> []"
  shows "fst (seedBlock block r) =
     renameAll ownersName 0 (sortBy byVisualPosition (findAll isImageLayer block)) block"
proof -
  have "title \<noteq> []" using assms(2) isOwnersSuiteTitle_Nil by auto
  then show ?thesis
    using assms unfolding seedBlock_def titleOf_def Let_def ownersLoop_eq
    by (auto split: option.splits)
qed

lemma sorted_images_refs:
  assumes "imgs = sortBy byVisualPosition (findAll isImageLayer block)"
  shows "distinct (map fst imgs)"
    and "\<And>i. i < length imgs \<Longrightarrow> propsAt block (fst (imgs ! i)) = Some (props (snd (imgs ! i)))"
proof -
  have "distinct (map fst (descendants block))" by (rule descendants_distinct_aux(1))
  then have "distinct (map fst (findAll isImageLayer block))"
    unfolding findAll_def by (rule distinct_map_filter)
  then show "distinct (map fst imgs)" unfolding assms by (simp add: distinct_map_sortBy)
  fix i assume "i < length imgs"
  then have "imgs ! i \<in> set imgs" by (rule nth_mem)
  then have "imgs ! i \<in> set (descendants block)"
    unfolding assms by (simp add: set_sortBy findAll_def)
  then have "(fst (imgs ! i), snd (imgs ! i)) \<in> set (descendants block)" by simp
  then show "propsAt block (fst (imgs ! i)) = Some (props (snd (imgs ! i)))"
    by (rule descendants_propsAt)
qed

lemma name_seedImage: "name (seedImage n p) = n"
  by (simp add: seedImage_def)

lemma owners_name_at:
  assumes "titleOf block = Some title" "isOwnersSuiteTitle title"
    "imgs = sortBy byVisualPosition (findAll isImageLayer block)" "i < length imgs"
  shows "map_option name (propsAt (fst (seedBlock block r)) (fst (imgs ! i)))
     = Some (ownersName i)"
proof -
  have ne: "findAll isImageLayer block \<noteq> []"
    using assms(3,4) by (auto simp: sortBy_def)
  have sb: "fst (seedBlock block r) = renameAll ownersName 0 imgs block"
    unfolding assms(3) using assms(1,2) ne by (rule seedBlock_owners)
  note refs = sorted_images_refs[OF assms(3)]
  show ?thesis
    unfolding sb renameAll_propsAt[OF refs(1) assms(4)] refs(2)[OF assms(4)]
    by (simp add: name_seedImage)
qed

lemma map_six:
  assumes "length xs = 6"
  shows "map f xs = [f (xs ! 0), f (xs ! 1), f (xs ! 2), f (xs ! 3), f (xs ! 4), f (xs ! 5)]"
proof (rule nth_equalityI)
  show "length (map f xs)
      = length [f (xs ! 0), f (xs ! 1), f (xs ! 2), f (xs ! 3), f (xs ! 4), f (xs ! 5)]"
    using assms by simp
next
  fix i assume "i < length (map f xs)"
  then have "i < 6" using assms by simp
  then consider "i = 0" | "i = 1" | "i = 2" | "i = 3" | "i = 4" | "i = 5" by linarith
  then show "map f xs ! i
      = [f (xs ! 0), f (xs ! 1), f (xs ! 2), f (xs ! 3), f (xs ! 4), f (xs ! 5)] ! i"
    using assms by cases simp_all
qed

lemma ownersName_values:
  "ownersName 0 = ''Owners_1''" "ownersName 1 = ''Owners_2''" "ownersName 2 = ''Owners_Bath_1''"
  "ownersName 3 = ''Owners_Bath_2''" "ownersName 4 = ''Owners_WIC_1''"
  "ownersName 5 = ''Owners_6''" "ownersName (Suc 0) = ''Owners_2''"
  by code_simp+

lemma ownersName_eq:
  "ownersName i =
     (if i < 5 then [''Owners_1'', ''Owners_2'', ''Owners_Bath_1'', ''Owners_Bath_2'',
                     ''Owners_WIC_1''] ! i
      else ''Owners_'' @ showNat (i + 1))"
  by (simp add: ownersName_def ownersPattern_def)

text \<open>
  C7: in an Owners Suite block the image nodes, sorted by position (top to bottom, then left
  to right), are named by their place in that order: \<open>Owners_1\<close>, \<open>Owners_2\<close>, \<open>Owners_Bath_1\<close>,
  \<open>Owners_Bath_2\<close>, \<open>Owners_WIC_1\<close> for the first five, and \<open>Owners_<i+1>\<close> for the node at 0-based
  place \<open>i \<ge> 5\<close>; six image nodes get exactly \<open>Owners_1\<close>, \<open>Owners_2\<close>, \<open>Owners_Bath_1\<close>,
  \<open>Owners_Bath_2\<close>, \<open>Owners_WIC_1\<close>, \<open>Owners_6\<close>.
\<close>

theorem owners_suite_names:
  "titleOf block = Some title \<and> isOwnersSuiteTitle title
     \<and> imageNodes = sortBy byVisualPosition (findAll isImageLayer block) \<longrightarrow>
   sorted_wrt
     (\<lambda>a b. pos_y (props (snd a)) < pos_y (props (snd b))
        \<or> (pos_y (props (snd a)) = pos_y (props (snd b))
            \<and> pos_x (props (snd a)) \<le> pos_x (props (snd b))))
     imageNodes
   \<and> (\<forall>i < length imageNodes.
        map_option name (propsAt (fst (seedBlock block res)) (fst (imageNodes ! i)))
          = Some (if i < 5
                  then [''Owners_1'', ''Owners_2'', ''Owners_Bath_1'', ''Owners_Bath_2'',
                        ''Owners_WIC_1''] ! i
                  else ''Owners_'' @ showNat (i + 1)))
   \<and> (length imageNodes = 6 \<longrightarrow>
        map (\<lambda>img. map_option name (propsAt (fst (seedBlock block res)) (fst img))) imageNodes
          = [Some ''Owners_1'', Some ''Owners_2'', Some ''Owners_Bath_1'',
             Some ''Owners_Bath_2'', Some ''Owners_WIC_1'', Some ''Owners_6''])"
proof (intro impI)
  assume h: "titleOf block = Some title \<and> isOwnersSuiteTitle title
     \<and> imageNodes = sortBy byVisualPosition (findAll isImageLayer block)"
  then have t: "titleOf block = Some title" and o: "isOwnersSuiteTitle title"
    and imgs: "imageNodes = sortBy byVisualPosition (findAll isImageLayer block)" by simp_all
  have a: "sorted_wrt
     (\<lambda>a b. pos_y (props (snd a)) < pos_y (props (snd b))
        \<or> (pos_y (props (snd a)) = pos_y (props (snd b))
            \<and> pos_x (props (snd a)) \<le> pos_x (props (snd b))))
     imageNodes"
    using sorted_byVisualPosition[of "findAll isImageLayer block"]
    unfolding imgs byVisualPosition_le .
  have nm: "map_option name (propsAt (fst (seedBlock block res)) (fst (imageNodes ! i)))
      = Some (ownersName i)" if "i < length imageNodes" for i
    using t o imgs that by (rule owners_name_at)
  have b: "\<forall>i < length imageNodes.
        map_option name (propsAt (fst (seedBlock block res)) (fst (imageNodes ! i)))
          = Some (if i < 5
                  then [''Owners_1'', ''Owners_2'', ''Owners_Bath_1'', ''Owners_Bath_2'',
                        ''Owners_WIC_1''] ! i
                  else ''Owners_'' @ showNat (i + 1))"
    using nm ownersName_eq by simp
  have c: "map (\<lambda>img. map_option name (propsAt (fst (seedBlock block res)) (fst img))) imageNodes
          = [Some ''Owners_1'', Some ''Owners_2'', Some ''Owners_Bath_1'',
             Some ''Owners_Bath_2'', Some ''Owners_WIC_1'', Some ''Owners_6'']"
    if six: "length imageNodes = 6"
    unfolding map_six[OF six]
    using nm[of 0] nm[of 1] nm[of 2] nm[of 3] nm[of 4] nm[of 5] six
    by (simp add: ownersName_values)
  from a b c show "sorted_wrt
     (\<lambda>a b. pos_y (props (snd a)) < pos_y (props (snd b))
        \<or> (pos_y (props (snd a)) = pos_y (props (snd b))
            \<and> pos_x (props (snd a)) \<le> pos_x (props (snd b))))
     imageNodes
   \<and> (\<forall>i < length imageNodes.
        map_option name (propsAt (fst (seedBlock block res)) (fst (imageNodes ! i)))
          = Some (if i < 5
                  then [''Owners_1'', ''Owners_2'', ''Owners_Bath_1'', ''Owners_Bath_2'',
                        ''Owners_WIC_1''] ! i
                  else ''Owners_'' @ showNat (i + 1)))
   \<and> (length imageNodes = 6 \<longrightarrow>
        map (\<lambda>img. map_option name (propsAt (fst (seedBlock block res)) (fst img))) imageNodes
          = [Some ''Owners_1'', Some ''Owners_2'', Some ''Owners_Bath_1'',
             Some ''Owners_Bath_2'', Some ''Owners_WIC_1'', Some ''Owners_6''])"
    by blast
qed

text \<open>
  An instance: an Owners Suite block with six image nodes; the paths are listed in the sorted
  order of the nodes.
\<close>

theorem owners_suite_names_witness:
  "titleOf ownersBlock6 = Some ''Owner's Suite''
   \<and> isOwnersSuiteTitle ''Owner's Suite''
   \<and> map fst (sortBy byVisualPosition (findAll isImageLayer ownersBlock6))
       = [[3, 0], [2], [1], [3, 1], [4], [5]]
   \<and> map (\<lambda>q. map_option name (propsAt (fst (seedBlock ownersBlock6 noResult)) q))
         [[3, 0], [2], [1], [3, 1], [4], [5]]
       = [Some ''Owners_1'', Some ''Owners_2'', Some ''Owners_Bath_1'',
          Some ''Owners_Bath_2'', Some ''Owners_WIC_1'', Some ''Owners_6'']"
proof -
  let ?imgs = "sortBy byVisualPosition (findAll isImageLayer ownersBlock6)"
  have t: "titleOf ownersBlock6 = Some ''Owner's Suite''" by code_simp
  have o: "isOwnersSuiteTitle ''Owner's Suite''" by code_simp
  have p: "map fst ?imgs = [[3, 0], [2], [1], [3, 1], [4], [5]]" by code_simp
  then have "length (map fst ?imgs) = 6" by simp
  then have six: "length ?imgs = 6" by simp
  have "map (\<lambda>img. map_option name
          (propsAt (fst (seedBlock ownersBlock6 noResult)) (fst img))) ?imgs
      = [Some ''Owners_1'', Some ''Owners_2'', Some ''Owners_Bath_1'',
         Some ''Owners_Bath_2'', Some ''Owners_WIC_1'', Some ''Owners_6'']"
    using owners_suite_names[of ownersBlock6 "''Owner's Suite''" ?imgs noResult] t o six
    by blast
  moreover have "map (\<lambda>img. map_option name
          (propsAt (fst (seedBlock ownersBlock6 noResult)) (fst img))) ?imgs
      = map (\<lambda>q. map_option name (propsAt (fst (seedBlock ownersBlock6 noResult)) q))
          (map fst ?imgs)"
    by (simp add: comp_def)
  ultimately have "map (\<lambda>q. map_option name (propsAt (fst (seedBlock ownersBlock6 noResult)) q))
         [[3, 0], [2], [1], [3, 1], [4], [5]]
       = [Some ''Owners_1'', Some ''Owners_2'', Some ''Owners_Bath_1'',
          Some ''Owners_Bath_2'', Some ''Owners_WIC_1'', Some ''Owners_6'']"
    unfolding p by simp
  with t o p show ?thesis by blast
qed

end
